theory Spec2Isabelle
  imports Main "HOL-Library.Finite_Map" "HOL-Library.Sublist"
begin

section \<open>Runtime types\<close>

text \<open>
  The program inspects Go types through package reflect. A \<open>reflect.Type\<close> is a
  reference to a runtime type descriptor, and descriptors refer to each other (a pointer
  type to its element, a struct to the types of its fields), possibly in a cycle:
  \<^verbatim>\<open>type Node struct { Next *Node }\<close> and \<^verbatim>\<open>type Tree []Tree\<close> are valid Go.
  A type is therefore a key (\<open>type_id\<close>) into a table of descriptors (\<open>rtypes\<close>),
  and a descriptor holds what the methods of \<open>reflect.Type\<close> used by the program
  return for it: \<open>Kind()\<close>, \<open>Name()\<close>, \<open>PkgPath()\<close>, \<open>String()\<close>, \<open>Elem()\<close>,
  \<open>Key()\<close>, the fields \<open>Field(0)\<close> .. \<open>Field(NumField()-1)\<close> and the result of
  \<open>reflect.VisibleFields\<close>. The program calls \<open>Elem()\<close> and \<open>Key()\<close> only on kinds
  that have them, so the two are plain components here.
\<close>

datatype Kind =
    KInvalid | KBool | KInt | KInt8 | KInt16 | KInt32 | KInt64
  | KUint | KUint8 | KUint16 | KUint32 | KUint64 | KUintptr
  | KFloat32 | KFloat64 | KComplex64 | KComplex128
  | KArray | KChan | KFunc | KInterface | KMap | KPtr | KSlice
  | KString | KStruct | KUnsafePointer

text \<open>\<open>Kind.String()\<close> of package reflect.\<close>

fun Kind_String :: "Kind \<Rightarrow> string" where
  "Kind_String KInvalid = ''invalid''"
| "Kind_String KBool = ''bool''"
| "Kind_String KInt = ''int''"
| "Kind_String KInt8 = ''int8''"
| "Kind_String KInt16 = ''int16''"
| "Kind_String KInt32 = ''int32''"
| "Kind_String KInt64 = ''int64''"
| "Kind_String KUint = ''uint''"
| "Kind_String KUint8 = ''uint8''"
| "Kind_String KUint16 = ''uint16''"
| "Kind_String KUint32 = ''uint32''"
| "Kind_String KUint64 = ''uint64''"
| "Kind_String KUintptr = ''uintptr''"
| "Kind_String KFloat32 = ''float32''"
| "Kind_String KFloat64 = ''float64''"
| "Kind_String KComplex64 = ''complex64''"
| "Kind_String KComplex128 = ''complex128''"
| "Kind_String KArray = ''array''"
| "Kind_String KChan = ''chan''"
| "Kind_String KFunc = ''func''"
| "Kind_String KInterface = ''interface''"
| "Kind_String KMap = ''map''"
| "Kind_String KPtr = ''ptr''"
| "Kind_String KSlice = ''slice''"
| "Kind_String KString = ''string''"
| "Kind_String KStruct = ''struct''"
| "Kind_String KUnsafePointer = ''unsafe.Pointer''"

type_synonym type_id = nat

text \<open>
  \<open>reflect.StructField\<close>: \<open>FieldPkgPath\<close> is empty exactly for an exported field
  (\<open>IsExported()\<close>); \<open>FieldTag\<close> is the struct tag as its key/value pairs.
\<close>

record StructField =
  FieldName :: string
  FieldPkgPath :: string
  FieldType :: type_id
  FieldTag :: "(string \<times> string) list"

record rtype =
  Kind :: Kind
  Name :: string
  PkgPath :: string
  TypeString :: string
  Elem :: type_id
  Key :: type_id
  Fields :: "StructField list"
  VisibleFields :: "StructField list"

type_synonym rtypes = "type_id \<Rightarrow> rtype"

definition IsExported :: "StructField \<Rightarrow> bool" where
  "IsExported field \<longleftrightarrow> FieldPkgPath field = ''''"

text \<open>\<open>StructTag.Get\<close>: the value of the key, the empty string when the tag has no such key.\<close>

definition Tag_Get :: "(string \<times> string) list \<Rightarrow> string \<Rightarrow> string" where
  "Tag_Get tag key = (case map_of tag key of None \<Rightarrow> '''' | Some v \<Rightarrow> v)"

text \<open>
  \<open>strings.Split\<close> for a separator of one byte: the pieces between the separators; a
  text without separator, the empty text too, gives one piece.
\<close>

fun strings_Split :: "string \<Rightarrow> char \<Rightarrow> string list" where
  "strings_Split [] sep = [[]]"
| "strings_Split (c # cs) sep =
     (if c = sep then [] # strings_Split cs sep
      else (case strings_Split cs sep of
              [] \<Rightarrow> [[c]]
            | w # ws \<Rightarrow> (c # w) # ws))"

text \<open>\<open>strings.CutPrefix\<close> and \<open>strings.Contains\<close>.\<close>

definition strings_CutPrefix :: "string \<Rightarrow> string \<Rightarrow> string \<times> bool" where
  "strings_CutPrefix s pre =
     (if prefix pre s then (drop (length pre) s, True) else (s, False))"

fun strings_Contains :: "string \<Rightarrow> string \<Rightarrow> bool" where
  "strings_Contains [] sub = (sub = [])"
| "strings_Contains (c # cs) sub = (prefix sub (c # cs) \<or> strings_Contains cs sub)"

section \<open>Type descriptors (package typeinfo)\<close>

record TypeInfo =
  InfoName :: string
  InfoKind :: string
  InfoPackage :: string

text \<open>
  \<open>getKindString\<close> follows the element types of maps and slices. On a type such as
  \<^verbatim>\<open>type Tree []Tree\<close> the recursion never ends, so the function is partial: \<open>None\<close>
  is "does not return".
\<close>

partial_function (option) getKindString :: "rtypes \<Rightarrow> type_id \<Rightarrow> string option" where
  "getKindString ts typ =
     (if Kind (ts typ) = KMap then
        Option.bind (getKindString ts (Key (ts typ))) (\<lambda>k.
        Option.bind (getKindString ts (Elem (ts typ))) (\<lambda>e.
        Some (''map['' @ k @ '']'' @ e)))
      else if Kind (ts typ) = KSlice then
        Option.bind (getKindString ts (Elem (ts typ))) (\<lambda>e. Some (''[]'' @ e))
      else Some (Kind_String (Kind (ts typ))))"

text \<open>\<open>Get\<close>; the argument \<open>None\<close> is the nil \<open>reflect.Type\<close>.\<close>

definition Get :: "rtypes \<Rightarrow> type_id option \<Rightarrow> TypeInfo option" where
  "Get ts typ0 =
     (case typ0 of
        None \<Rightarrow> Some \<lparr>InfoName = '''', InfoKind = '''', InfoPackage = ''''\<rparr>
      | Some typ1 \<Rightarrow>
          (let typ = (if Kind (ts typ1) = KPtr then Elem (ts typ1) else typ1) in
           Option.bind (getKindString ts typ) (\<lambda>kind.
             (let result = \<lparr>InfoName = '''', InfoKind = kind, InfoPackage = ''''\<rparr>;
                  sliced = (PkgPath (ts typ) = '''' \<and> Kind (ts typ) = KSlice);
                  result = (if sliced then result\<lparr>InfoName := ''[]''\<rparr> else result);
                  typ = (if sliced then Elem (ts typ) else typ)
              in if PkgPath (ts typ) = ''''
                 then Some (result\<lparr>InfoName := InfoName result @ TypeString (ts typ)\<rparr>)
                 else Some (result\<lparr>InfoName := InfoName result @ Name (ts typ),
                                   InfoPackage := PkgPath (ts typ)\<rparr>)))))"

section \<open>The structural walker (package govydoc)\<close>

text \<open>
  \<open>PropertyDoc\<close> embeds \<open>govy.PropertyPlan\<close>, a type of the validation library; of its
  fields the program reads and writes \<open>Path\<close> and \<open>TypeInfo\<close>, the others (rules,
  examples) are filled by the library's planner and are left out.
\<close>

record PropertyDoc =
  Path :: string
  TypeInfo :: TypeInfo
  TypeDoc :: string
  FieldDoc :: string
  DeprecatedDoc :: string
  ChildrenPaths :: "string list"

record Example =
  ExampleName :: string
  Content :: string

record ObjectDoc =
  ObjectName :: string
  Properties :: "PropertyDoc list"
  Examples :: "Example list"
  ObjectDocText :: string

text \<open>The zero value \<open>PropertyDoc{}\<close>.\<close>

definition emptyPropertyDoc :: PropertyDoc where
  "emptyPropertyDoc =
     \<lparr>Path = '''',
      TypeInfo = \<lparr>InfoName = '''', InfoKind = '''', InfoPackage = ''''\<rparr>,
      TypeDoc = '''', FieldDoc = '''', DeprecatedDoc = '''', ChildrenPaths = []\<rparr>"

definition setTypeInfo :: "rtypes \<Rightarrow> PropertyDoc \<Rightarrow> type_id \<Rightarrow> PropertyDoc option" where
  "setTypeInfo ts doc typ =
     Option.bind (Get ts (Some typ)) (\<lambda>info. Some (doc\<lparr>TypeInfo := info\<rparr>))"

text \<open>
  A \<open>for ... range\<close> loop whose body updates a state and may not return: the body runs on
  each element in order, on the state the previous one left.
\<close>

fun forEach :: "('a \<Rightarrow> 's \<Rightarrow> 's option) \<Rightarrow> 'a list \<Rightarrow> 's \<Rightarrow> 's option" where
  "forEach body [] s = Some s"
| "forEach body (x # xs) s = Option.bind (body x s) (forEach body xs)"

lemma forEach_mono [partial_function_mono]:
  assumes "\<And>x s. mono_option (\<lambda>f. B f x s)"
  shows "mono_option (\<lambda>f. forEach (B f) xs s)"
proof (induction xs arbitrary: s)
  case Nil
  show ?case by (simp add: option.const_mono)
next
  case (Cons x xs)
  show ?case
    unfolding forEach.simps
    by (rule bind_mono [OF assms Cons.IH])
qed

text \<open>
  \<open>objectMapper.Map\<close>. The receiver's \<open>Properties\<close> slice is the state: the function
  takes it and returns it with the new nodes appended. The recursion follows the type
  table and has no guard against a cycle, so the function is partial.
\<close>

partial_function (option) Map ::
  "rtypes \<Rightarrow> type_id \<Rightarrow> string \<Rightarrow> PropertyDoc list \<Rightarrow> PropertyDoc list option" where
  "Map ts typ0 path properties =
     (let typ = (if Kind (ts typ0) = KPtr then Elem (ts typ0) else typ0) in
      Option.bind (setTypeInfo ts (emptyPropertyDoc\<lparr>Path := path\<rparr>) typ) (\<lambda>doc.
        (let properties = properties @ [doc] in
         if Kind (ts typ) = KStruct then
           forEach
             (\<lambda>field properties.
                (let tags = strings_Split (Tag_Get (FieldTag field) ''json'') (CHR '','') in
                 if length tags = 0 then Some properties
                 else
                   (let name = tags ! 0 in
                    if name = '''' \<or> name = ''-'' then Some properties
                    else Map ts (FieldType field) (path @ ''.'' @ name) properties)))
             (VisibleFields (ts typ)) properties
         else if Kind (ts typ) = KSlice then
           Map ts (Elem (ts typ)) (path @ ''[*]'') properties
         else if Kind (ts typ) = KMap then
           Option.bind (Map ts (Key (ts typ)) (path @ ''.~'') properties) (\<lambda>properties.
             Map ts (Elem (ts typ)) (path @ ''.*'') properties)
         else Some properties)))"

text \<open>\<open>findPropertyChildrenPaths\<close>: one pass over the properties, in order.\<close>

fun findPropertyChildrenPaths :: "string \<Rightarrow> PropertyDoc list \<Rightarrow> string list" where
  "findPropertyChildrenPaths parent [] = []"
| "findPropertyChildrenPaths parent (property # properties) =
     (case strings_CutPrefix (Path property) (parent @ ''.'') of
        (childRelativePath, found) \<Rightarrow>
          if \<not> found then findPropertyChildrenPaths parent properties
          else if strings_Contains childRelativePath ''.''
            then findPropertyChildrenPaths parent properties
          else (parent @ ''.'' @ childRelativePath) # findPropertyChildrenPaths parent properties)"

text \<open>
  \<open>generateObjectDoc\<close>. Its second loop reads element \<open>i\<close>, sets the children paths
  computed from the whole slice as it is at that moment, and writes the element back.
\<close>

definition addChildrenPaths :: "PropertyDoc list \<Rightarrow> PropertyDoc list" where
  "addChildrenPaths properties =
     fold (\<lambda>i properties.
             (let property = properties ! i;
                  childrenPaths = findPropertyChildrenPaths (Path property) properties
              in properties[i := property\<lparr>ChildrenPaths := childrenPaths\<rparr>]))
          [0 ..< length properties] properties"

definition generateObjectDoc :: "rtypes \<Rightarrow> type_id \<Rightarrow> ObjectDoc option" where
  "generateObjectDoc ts goType0 =
     (let goType = (if Kind (ts goType0) = KPtr then Elem (ts goType0) else goType0) in
      Option.bind (Map ts goType ''$'' []) (\<lambda>properties.
        Some \<lparr>ObjectName = '''', Properties = addChildrenPaths properties,
              Examples = [], ObjectDocText = ''''\<rparr>))"

section \<open>Post-processing of the properties (package govydoc)\<close>

subsection \<open>Library functions on texts\<close>

text \<open>
  Texts are Go strings: sequences of bytes holding UTF-8. \<open>strings.TrimSpace\<close> removes
  the leading and the trailing white space "as defined by Unicode"; \<open>unicodeSpaces\<close>
  lists the UTF-8 encodings of the runes for which \<open>unicode.IsSpace\<close> holds
  (U+0009 to U+000D, U+0020, U+0085, U+00A0, U+1680, U+2000 to U+200A, U+2028, U+2029,
  U+202F, U+205F, U+3000).
\<close>

definition unicodeSpaces :: "string list" where
  "unicodeSpaces =
     [[CHR 0x09], [CHR 0x0A], [CHR 0x0B], [CHR 0x0C], [CHR 0x0D], [CHR 0x20],
      [CHR 0xC2, CHR 0x85], [CHR 0xC2, CHR 0xA0],
      [CHR 0xE1, CHR 0x9A, CHR 0x80],
      [CHR 0xE2, CHR 0x80, CHR 0x80], [CHR 0xE2, CHR 0x80, CHR 0x81],
      [CHR 0xE2, CHR 0x80, CHR 0x82], [CHR 0xE2, CHR 0x80, CHR 0x83],
      [CHR 0xE2, CHR 0x80, CHR 0x84], [CHR 0xE2, CHR 0x80, CHR 0x85],
      [CHR 0xE2, CHR 0x80, CHR 0x86], [CHR 0xE2, CHR 0x80, CHR 0x87],
      [CHR 0xE2, CHR 0x80, CHR 0x88], [CHR 0xE2, CHR 0x80, CHR 0x89],
      [CHR 0xE2, CHR 0x80, CHR 0x8A],
      [CHR 0xE2, CHR 0x80, CHR 0xA8], [CHR 0xE2, CHR 0x80, CHR 0xA9],
      [CHR 0xE2, CHR 0x80, CHR 0xAF],
      [CHR 0xE2, CHR 0x81, CHR 0x9F],
      [CHR 0xE3, CHR 0x80, CHR 0x80]]"

lemma unicodeSpaces_nonempty: "r \<in> set unicodeSpaces \<Longrightarrow> r \<noteq> []"
  by (auto simp: unicodeSpaces_def)

function trimLeft :: "string \<Rightarrow> string" where
  "trimLeft s =
     (case find (\<lambda>r. prefix r s) unicodeSpaces of
        None \<Rightarrow> s
      | Some r \<Rightarrow> trimLeft (drop (length r) s))"
  by pat_completeness auto
termination
proof (relation "measure length")
  show "wf (measure length)" by simp
next
  fix s :: string and r
  assume "find (\<lambda>r. prefix r s) unicodeSpaces = Some r"
  then have "r \<in> set unicodeSpaces" and "prefix r s"
    by (auto simp: find_Some_iff)
  then have "r \<noteq> []" and "length r \<le> length s"
    by (auto simp: unicodeSpaces_nonempty prefix_length_le)
  then show "(drop (length r) s, s) \<in> measure length"
    by (cases r) auto
qed

function trimRight :: "string \<Rightarrow> string" where
  "trimRight s =
     (case find (\<lambda>r. suffix r s) unicodeSpaces of
        None \<Rightarrow> s
      | Some r \<Rightarrow> trimRight (take (length s - length r) s))"
  by pat_completeness auto
termination
proof (relation "measure length")
  show "wf (measure length)" by simp
next
  fix s :: string and r
  assume "find (\<lambda>r. suffix r s) unicodeSpaces = Some r"
  then have "r \<in> set unicodeSpaces" and "suffix r s"
    by (auto simp: find_Some_iff)
  then have "r \<noteq> []" and "length r \<le> length s"
    by (auto simp: unicodeSpaces_nonempty suffix_length_le)
  then show "(take (length s - length r) s, s) \<in> measure length"
    by (cases r) auto
qed

declare trimLeft.simps [simp del] trimRight.simps [simp del]

definition strings_TrimSpace :: "string \<Rightarrow> string" where
  "strings_TrimSpace s = trimRight (trimLeft s)"

text \<open>
  \<open>enumDeclarationRegex\<close> is \<^verbatim>\<open>(?s)ENUM(.*)\<close>: the leftmost \<open>ENUM\<close> and all that
  follows it, line ends included. Replacing every match by the empty text leaves the text
  before the first \<open>ENUM\<close>.
\<close>

fun enumDeclarationRegex_ReplaceAllString :: "string \<Rightarrow> string" where
  "enumDeclarationRegex_ReplaceAllString [] = []"
| "enumDeclarationRegex_ReplaceAllString (c # cs) =
     (if prefix ''ENUM'' (c # cs) then []
      else c # enumDeclarationRegex_ReplaceAllString cs)"

text \<open>
  \<open>deprecatedRegex\<close> is \<^verbatim>\<open>(?m)^Deprecated:\s*(.*)$\<close>. A match starts at the
  beginning of a line (of the text, or after a line feed) with \<open>Deprecated:\<close>; \<^verbatim>\<open>\s*\<close>
  takes the longest run of the white space of the regular expression syntax (tab, line
  feed, form feed, carriage return, space; the run may cross line ends); \<^verbatim>\<open>(.*)\<close> takes
  the rest of that line, and \<^verbatim>\<open>$\<close> holds there. \<open>deprecatedMatchAt\<close> is the match
  that starts at the head of the text: the matched text, the submatch and what follows.
\<close>

definition isReSpace :: "char \<Rightarrow> bool" where
  "isReSpace c \<longleftrightarrow> c = CHR 0x09 \<or> c = CHR 0x0A \<or> c = CHR 0x0C \<or> c = CHR 0x0D \<or> c = CHR 0x20"

definition deprecatedMatchAt :: "string \<Rightarrow> (string \<times> string \<times> string) option" where
  "deprecatedMatchAt s =
     (if prefix ''Deprecated:'' s then
        (let afterColon = drop (length ''Deprecated:'') s;
             spaces = takeWhile isReSpace afterColon;
             line = dropWhile isReSpace afterColon;
             submatch = takeWhile (\<lambda>c. c \<noteq> CHR 0x0A) line;
             rest = dropWhile (\<lambda>c. c \<noteq> CHR 0x0A) line
         in Some (''Deprecated:'' @ spaces @ submatch, submatch, rest))
      else None)"

text \<open>The leftmost match; \<open>bol\<close> tells whether the head of the text begins a line.\<close>

fun deprecatedFind :: "bool \<Rightarrow> string \<Rightarrow> (string \<times> string \<times> string) option" where
  "deprecatedFind bol [] = None"
| "deprecatedFind bol (c # cs) =
     (case (if bol then deprecatedMatchAt (c # cs) else None) of
        Some m \<Rightarrow> Some m
      | None \<Rightarrow> deprecatedFind (c = CHR 0x0A) cs)"

definition deprecatedRegex_MatchString :: "string \<Rightarrow> bool" where
  "deprecatedRegex_MatchString s \<longleftrightarrow> deprecatedFind True s \<noteq> None"

definition deprecatedRegex_FindStringSubmatch :: "string \<Rightarrow> string list" where
  "deprecatedRegex_FindStringSubmatch s =
     (case deprecatedFind True s of
        None \<Rightarrow> []
      | Some (matched, submatch, rest) \<Rightarrow> [matched, submatch])"

lemma deprecatedMatchAt_shorter:
  "deprecatedMatchAt s = Some (matched, submatch, rest) \<Longrightarrow> length rest < length s"
proof -
  assume m: "deprecatedMatchAt s = Some (matched, submatch, rest)"
  then have p: "prefix ''Deprecated:'' s"
    by (auto simp: deprecatedMatchAt_def split: if_splits)
  then have l: "length ''Deprecated:'' \<le> length s"
    by (rule prefix_length_le)
  from m have "length rest \<le> length (dropWhile isReSpace (drop (length ''Deprecated:'') s))"
    by (auto simp: deprecatedMatchAt_def Let_def length_dropWhile_le split: if_splits)
  also have "\<dots> \<le> length (drop (length ''Deprecated:'') s)"
    by (rule length_dropWhile_le)
  also have "\<dots> < length s"
    using l by simp
  finally show ?thesis .
qed

text \<open>
  Replacing every match by the empty text. The search goes on behind a match; what
  follows a match is empty or starts with a line feed, where no match starts.
\<close>

function deprecatedRegex_ReplaceAllString :: "bool \<Rightarrow> string \<Rightarrow> string" where
  "deprecatedRegex_ReplaceAllString bol [] = []"
| "deprecatedRegex_ReplaceAllString bol (c # cs) =
     (case (if bol then deprecatedMatchAt (c # cs) else None) of
        Some (matched, submatch, rest) \<Rightarrow> deprecatedRegex_ReplaceAllString False rest
      | None \<Rightarrow> c # deprecatedRegex_ReplaceAllString (c = CHR 0x0A) cs)"
  by pat_completeness auto
termination
  by (relation "measure (\<lambda>(bol, s). length s)")
    (auto dest: deprecatedMatchAt_shorter split: if_splits)

subsection \<open>The post-processors\<close>

text \<open>
  \<open>filterProperties\<close> is the package variable with its declared value. The function
  \<open>postProcessProperties\<close> reads the variable; its value is an argument of the model
  (\<open>excluded\<close>), so that a statement about every exclusion list covers the declared value
  and any list put in its place.
\<close>

definition filterProperties :: "string list" where
  "filterProperties = [''$.organization'']"

type_synonym propertyPostProcessor = "PropertyDoc \<Rightarrow> PropertyDoc"

fun postProcessLoop ::
  "string list \<Rightarrow> propertyPostProcessor list \<Rightarrow> PropertyDoc list \<Rightarrow> PropertyDoc list" where
  "postProcessLoop excluded formatters [] = []"
| "postProcessLoop excluded formatters (property # rest) =
     (if Path property \<in> set excluded then postProcessLoop excluded formatters rest
      else fold (\<lambda>formatter property. formatter property) formatters property
             # postProcessLoop excluded formatters rest)"

definition postProcessProperties ::
  "string list \<Rightarrow> ObjectDoc \<Rightarrow> propertyPostProcessor list \<Rightarrow> ObjectDoc" where
  "postProcessProperties excluded doc formatters =
     doc\<lparr>Properties := postProcessLoop excluded formatters (Properties doc)\<rparr>"

definition removeEnumDeclaration :: propertyPostProcessor where
  "removeEnumDeclaration doc =
     doc\<lparr>TypeDoc := enumDeclarationRegex_ReplaceAllString (TypeDoc doc)\<rparr>"

definition removeTrailingWhitespace :: propertyPostProcessor where
  "removeTrailingWhitespace doc =
     doc\<lparr>TypeDoc := strings_TrimSpace (TypeDoc doc),
         FieldDoc := strings_TrimSpace (FieldDoc doc)\<rparr>"

definition extractDeprecatedInformation :: propertyPostProcessor where
  "extractDeprecatedInformation doc =
     (if deprecatedRegex_MatchString (TypeDoc doc) then
        (let matches = deprecatedRegex_FindStringSubmatch (TypeDoc doc);
             doc = (if length matches > 1
                    then doc\<lparr>DeprecatedDoc := strings_TrimSpace (matches ! 1)\<rparr> else doc)
         in doc\<lparr>TypeDoc :=
                  strings_TrimSpace (deprecatedRegex_ReplaceAllString True (TypeDoc doc))\<rparr>)
      else if deprecatedRegex_MatchString (FieldDoc doc) then
        (let matches = deprecatedRegex_FindStringSubmatch (FieldDoc doc);
             doc = (if length matches > 1
                    then doc\<lparr>DeprecatedDoc := strings_TrimSpace (matches ! 1)\<rparr> else doc)
         in doc\<lparr>FieldDoc :=
                  strings_TrimSpace (deprecatedRegex_ReplaceAllString True (FieldDoc doc))\<rparr>)
      else doc)"

text \<open>The processors \<open>Generate\<close> passes, in its order.\<close>

definition generateFormatters :: "propertyPostProcessor list" where
  "generateFormatters =
     [removeEnumDeclaration, extractDeprecatedInformation, removeTrailingWhitespace]"

section \<open>The documentation parser (package godoc)\<close>

subsection \<open>Documentation entries\<close>

text \<open>
  \<open>Docs\<close> is \<open>map[string]Doc\<close>, and a \<open>Doc\<close> holds a \<open>Docs\<close> of its struct fields. The
  nil map and the empty map are both the empty finite map.
\<close>

datatype Doc =
  Doc (DocName: string) (DocPackage: string) (DocText: string) (StructFields: "(string, Doc) fmap")

type_synonym Docs = "(string, Doc) fmap"

definition Doc_Key :: "Doc \<Rightarrow> string" where
  "Doc_Key d = (if DocPackage d = '''' then DocName d else DocPackage d @ ''.'' @ DocName d)"

definition Docs_add :: "Docs \<Rightarrow> Doc \<Rightarrow> Docs" where
  "Docs_add d doc = fmupd (Doc_Key doc) doc d"

definition setDocText :: "Doc \<Rightarrow> string \<Rightarrow> Doc" where
  "setDocText d text = Doc (DocName d) (DocPackage d) text (StructFields d)"

definition setStructFields :: "Doc \<Rightarrow> Docs \<Rightarrow> Doc" where
  "setStructFields d structFields = Doc (DocName d) (DocPackage d) (DocText d) structFields"

subsection \<open>The loaded packages\<close>

text \<open>
  The parser reads the packages loaded by \<open>golang.org/x/tools/go/packages\<close>: syntax trees
  (\<open>go/ast\<close>) and type information. Of a declaration it reads the text of the doc comment
  (\<open>decl.Doc.Text()\<close>, empty when there is none) and the first spec; of a struct type the
  field list; of a field its names, its type expression and the text of its doc comment.
\<close>

datatype ast_Expr =
    Ident string
  | SelectorExpr ast_Expr string
  | StarExpr ast_Expr
  | StructType "ast_Field list"
  | OtherExpr
and ast_Field =
    Field (AstNames: "string list") (AstType: "ast_Expr option") (AstDoc: string)

datatype ast_Spec = TypeSpec ast_Expr | ImportSpec | ValueSpec

record ast_GenDecl =
  DeclDoc :: string
  Specs :: "ast_Spec list"

text \<open>
  \<open>findTypeDeclaration\<close> looks the name up in the scope of the package and then searches
  the files for the enclosing declaration; \<open>declLookup\<close> is what it can find.
\<close>

datatype declLookup = NoObject | NoDeclaration | Declared ast_GenDecl

text \<open>
  A loaded package. \<open>Render\<close> is what \<open>comment.Printer.Markdown\<close> makes of a comment
  text parsed by the comment parser of the package, with the links resolved against the
  path of the package. The program creates that parser at the first use and keeps it in
  the package; it is the same function of the package whenever it is created.
\<close>

record goPackage =
  PackagePath :: string
  PackageName :: string
  TypesPath :: string
  Declarations :: "string \<Rightarrow> declLookup"
  Render :: "string \<Rightarrow> string"

record Parser =
  pkgs :: "string \<rightharpoonup> goPackage"

datatype error =
    ErrNoDocumentation string
  | ErrNoPackage string string
  | ErrNotFound string string
  | ErrNoDeclaration string string
  | ErrFindDeclaration string string error
  | ErrNoSpecs string
  | ErrNotTypeSpec string
  | ErrNotStructType string
  | ErrStructField string string error

subsection \<open>The functions of the parser\<close>

definition getPackageByPath :: "Parser \<Rightarrow> string \<Rightarrow> goPackage option" where
  "getPackageByPath p pkgPath = pkgs p pkgPath"

definition findTypeDeclaration :: "goPackage \<Rightarrow> string \<Rightarrow> error + ast_GenDecl" where
  "findTypeDeclaration pkg name =
     (case Declarations pkg name of
        NoObject \<Rightarrow> Inl (ErrNotFound (TypesPath pkg) name)
      | NoDeclaration \<Rightarrow> Inl (ErrNoDeclaration (PackageName pkg) name)
      | Declared decl \<Rightarrow> Inr decl)"

definition getTypeDeclarationInfo ::
  "Parser \<Rightarrow> string \<Rightarrow> string \<Rightarrow> error + (goPackage \<times> ast_GenDecl)" where
  "getTypeDeclarationInfo p pkgPath name =
     (case getPackageByPath p pkgPath of
        None \<Rightarrow> Inl (ErrNoPackage pkgPath name)
      | Some pkg \<Rightarrow>
          (case findTypeDeclaration pkg name of
             Inl err \<Rightarrow> Inl (ErrFindDeclaration name pkgPath err)
           | Inr decl \<Rightarrow> Inr (pkg, decl)))"

definition docCommentToMarkdown :: "goPackage \<Rightarrow> string \<Rightarrow> string" where
  "docCommentToMarkdown pkg text = (if text = '''' then '''' else Render pkg text)"

definition extractStructType :: "ast_GenDecl \<Rightarrow> string \<Rightarrow> error + ast_Field list" where
  "extractStructType decl name =
     (if length (Specs decl) = 0 then Inl (ErrNoSpecs name)
      else
        (case Specs decl ! 0 of
           TypeSpec typeExpr \<Rightarrow>
             (case typeExpr of
                StructType fieldList \<Rightarrow> Inr fieldList
              | _ \<Rightarrow> Inl (ErrNotStructType name))
         | _ \<Rightarrow> Inl (ErrNotTypeSpec name)))"

definition addEmbeddedFieldToMap ::
  "ast_Field \<Rightarrow> (string \<rightharpoonup> ast_Field) \<Rightarrow> (string \<rightharpoonup> ast_Field)" where
  "addEmbeddedFieldToMap astField astFieldsByName =
     (case AstType astField of
        None \<Rightarrow> astFieldsByName
      | Some (Ident name) \<Rightarrow> astFieldsByName(name \<mapsto> astField)
      | Some (SelectorExpr (Ident name) sel) \<Rightarrow> astFieldsByName(name \<mapsto> astField)
      | Some (StarExpr (Ident name)) \<Rightarrow> astFieldsByName(name \<mapsto> astField)
      | Some _ \<Rightarrow> astFieldsByName)"

definition buildASTFieldMap :: "ast_Field list \<Rightarrow> (string \<rightharpoonup> ast_Field)" where
  "buildASTFieldMap fieldList =
     fold (\<lambda>astField astFieldsByName.
             (let astFieldsByName =
                    fold (\<lambda>fieldName m. m(fieldName \<mapsto> astField)) (AstNames astField)
                      astFieldsByName
              in if length (AstNames astField) = 0
                 then addEmbeddedFieldToMap astField astFieldsByName
                 else astFieldsByName))
          fieldList Map.empty"

definition getStructFieldName :: "StructField \<Rightarrow> string" where
  "getStructFieldName field =
     (if \<not> IsExported field then ''''
      else
        (let tagValues = strings_Split (Tag_Get (FieldTag field) ''json'') (CHR '','') in
         if length tagValues = 0 then FieldName field
         else
           (let tagName = tagValues ! 0 in
            if tagName = '''' then FieldName field
            else if tagName = ''-'' then ''''
            else tagName)))"

text \<open>
  \<open>parse\<close>, \<open>parseStructFields\<close> and \<open>parseStructField\<close> call each other. The two
  helpers take the function they call back as their first argument. A call returns the
  entry (the \<open>*Doc\<close> of the source, which nothing else refers to) and the \<open>docs\<close> map as
  the call leaves it, or the error; \<open>None\<close> is "does not return".
\<close>

type_synonym parseResult = "(error + Doc \<times> Docs) option"

definition parseStructField ::
  "(type_id \<Rightarrow> Docs \<Rightarrow> parseResult) \<Rightarrow> StructField \<Rightarrow> Doc \<Rightarrow> goPackage \<Rightarrow>
   (string \<rightharpoonup> ast_Field) \<Rightarrow> Docs \<Rightarrow> parseResult" where
  "parseStructField parse goTypeField typeDoc pkg astFieldsByName docs =
     Option.bind (parse (FieldType goTypeField) docs) (\<lambda>r.
       (case r of
          Inl err \<Rightarrow> Some (Inl (ErrStructField (DocName typeDoc) (FieldName goTypeField) err))
        | Inr (fieldDoc, docs) \<Rightarrow>
            (let fieldName = getStructFieldName goTypeField in
             if fieldName = '''' then Some (Inr (typeDoc, docs))
             else
               (let fieldDoc =
                      (case astFieldsByName (FieldName goTypeField) of
                         Some astField \<Rightarrow>
                           setDocText fieldDoc (docCommentToMarkdown pkg (AstDoc astField))
                       | None \<Rightarrow> fieldDoc)
                in Some (Inr (setStructFields typeDoc
                                (fmupd fieldName fieldDoc (StructFields typeDoc)),
                              docs))))))"

text \<open>A counting loop that returns at the first error.\<close>

fun forFields ::
  "('a \<Rightarrow> 's \<Rightarrow> (error + 's) option) \<Rightarrow> 'a list \<Rightarrow> 's \<Rightarrow> (error + 's) option" where
  "forFields body [] s = Some (Inr s)"
| "forFields body (x # xs) s =
     Option.bind (body x s) (\<lambda>r.
       (case r of
          Inl err \<Rightarrow> Some (Inl err)
        | Inr s' \<Rightarrow> forFields body xs s'))"

definition parseStructFields ::
  "(type_id \<Rightarrow> Docs \<Rightarrow> parseResult) \<Rightarrow> rtype \<Rightarrow> Doc \<Rightarrow> goPackage \<Rightarrow> ast_GenDecl \<Rightarrow>
   Docs \<Rightarrow> parseResult" where
  "parseStructFields parse goType typeDoc pkg decl docs =
     (case extractStructType decl (DocName typeDoc) of
        Inl err \<Rightarrow> Some (Inl err)
      | Inr structType \<Rightarrow>
          (let typeDoc = setStructFields typeDoc fmempty;
               astFieldsByName = buildASTFieldMap structType
           in forFields
                (\<lambda>goTypeField (typeDoc, docs).
                   parseStructField parse goTypeField typeDoc pkg astFieldsByName docs)
                (Fields goType) (typeDoc, docs)))"

lemma parseStructField_mono [partial_function_mono]:
  assumes "\<And>t d. mono_option (\<lambda>f. R f t d)"
  shows "mono_option (\<lambda>f. parseStructField (R f) goTypeField typeDoc pkg astFieldsByName docs)"
  unfolding parseStructField_def
  by (rule bind_mono [OF assms option.const_mono])

lemma forFields_mono [partial_function_mono]:
  assumes "\<And>x s. mono_option (\<lambda>f. B f x s)"
  shows "mono_option (\<lambda>f. forFields (B f) xs s)"
proof (induction xs arbitrary: s)
  case Nil
  show ?case by (simp add: option.const_mono)
next
  case (Cons x xs)
  have "mono_option (\<lambda>f. case r of Inl err \<Rightarrow> Some (Inl err) | Inr s' \<Rightarrow> forFields (B f) xs s')"
    for r
    by (cases r) (simp_all add: option.const_mono Cons.IH)
  then show ?case
    unfolding forFields.simps
    by (rule bind_mono [OF assms])
qed

lemma parseStructFields_mono [partial_function_mono]:
  assumes "\<And>t d. mono_option (\<lambda>f. R f t d)"
  shows "mono_option (\<lambda>f. parseStructFields (R f) goType typeDoc pkg decl docs)"
proof (cases "extractStructType decl (DocName typeDoc)")
  case (Inl err)
  then show ?thesis
    by (simp add: parseStructFields_def option.const_mono)
next
  case (Inr structType)
  have "mono_option (\<lambda>f. case s of (typeDoc, docs) \<Rightarrow>
          parseStructField (R f) goTypeField typeDoc pkg astFieldsByName docs)"
    for goTypeField astFieldsByName and s :: "Doc \<times> Docs"
    by (cases s) (simp add: parseStructField_mono [OF assms])
  then show ?thesis
    unfolding parseStructFields_def Inr sum.case Let_def
    by (rule forFields_mono)
qed

partial_function (option) parse :: "Parser \<Rightarrow> rtypes \<Rightarrow> type_id \<Rightarrow> Docs \<Rightarrow> parseResult" where
  "parse p ts goType0 docs =
     (let goType = (if Kind (ts goType0) = KPtr \<or> Kind (ts goType0) = KSlice
                    then Elem (ts goType0) else goType0);
          name = Name (ts goType);
          pkgPath = PkgPath (ts goType);
          typeDoc = Doc name pkgPath '''' fmempty
      in if pkgPath = '''' then Some (Inr (typeDoc, docs))
         else
           (case getTypeDeclarationInfo p pkgPath name of
              Inl err \<Rightarrow> Some (Inl err)
            | Inr (pkg, decl) \<Rightarrow>
                (let typeDoc = setDocText typeDoc (docCommentToMarkdown pkg (DeclDoc decl)) in
                 if Kind (ts goType) \<noteq> KStruct
                 then Some (Inr (typeDoc, Docs_add docs typeDoc))
                 else
                   Option.bind
                     (parseStructFields (\<lambda>t d. parse p ts t d) (ts goType) typeDoc pkg decl docs)
                     (\<lambda>r. case r of
                             Inl err \<Rightarrow> Some (Inl err)
                           | Inr (typeDoc, docs) \<Rightarrow>
                               Some (Inr (typeDoc, Docs_add docs typeDoc))))))"

text \<open>
  \<open>Parse\<close> returns the pair of the source: the map (\<open>None\<close> is the nil map) and the
  error (\<open>None\<close> is the nil error).
\<close>

definition Parse :: "Parser \<Rightarrow> rtypes \<Rightarrow> type_id \<Rightarrow> (Docs option \<times> error option) option" where
  "Parse p ts goType =
     Option.bind (parse p ts goType fmempty) (\<lambda>r.
       (case r of
          Inl err \<Rightarrow> Some (None, Some err)
        | Inr (typeDoc, m) \<Rightarrow>
            if fcard (fmdom m) = 0
            then Some (None, Some (ErrNoDocumentation (TypeString (ts goType))))
            else Some (Some m, None)))"

subsection \<open>When the kind string is computed\<close>

text \<open>The types \<open>getKindString\<close> moves to from a type.\<close>

definition elemRefs :: "rtypes \<Rightarrow> type_id \<Rightarrow> type_id list" where
  "elemRefs ts t =
     (if Kind (ts t) = KMap then [Key (ts t), Elem (ts t)]
      else if Kind (ts t) = KSlice then [Elem (ts t)]
      else [])"

text \<open>
  Two tables for the examples. \<open>sliceTypes\<close> holds \<open>int\<close>, \<open>[]int\<close>,
  \<open>customString\<close> and \<open>[]customString\<close> of the package's own test;
  \<open>treeTypes\<close> holds \<^verbatim>\<open>type Tree []Tree\<close> (type 0) and \<open>[]Tree\<close> (type 1).
\<close>

definition packageName :: string where
  "packageName = ''github.com/nieomylnieja/govydoc/internal/typeinfo''"

definition sliceTypes :: rtypes where
  "sliceTypes t =
     (if t = 1 then
        \<lparr>Kind = KSlice, Name = '''', PkgPath = '''', TypeString = ''[]int'',
         Elem = 0, Key = 0, Fields = [], VisibleFields = []\<rparr>
      else if t = 2 then
        \<lparr>Kind = KString, Name = ''customString'', PkgPath = packageName,
         TypeString = ''typeinfo.customString'',
         Elem = 0, Key = 0, Fields = [], VisibleFields = []\<rparr>
      else if t = 3 then
        \<lparr>Kind = KSlice, Name = '''', PkgPath = '''', TypeString = ''[]typeinfo.customString'',
         Elem = 2, Key = 0, Fields = [], VisibleFields = []\<rparr>
      else
        \<lparr>Kind = KInt, Name = ''int'', PkgPath = '''', TypeString = ''int'',
         Elem = 0, Key = 0, Fields = [], VisibleFields = []\<rparr>)"

definition sliceRank :: "type_id \<Rightarrow> nat" where
  "sliceRank t = (if t = 1 \<or> t = 3 then 1 else 0)"

definition treeTypes :: rtypes where
  "treeTypes t =
     (if t = 0 then
        \<lparr>Kind = KSlice, Name = ''Tree'', PkgPath = ''example.com/forest'',
         TypeString = ''forest.Tree'', Elem = 0, Key = 0, Fields = [], VisibleFields = []\<rparr>
      else
        \<lparr>Kind = KSlice, Name = '''', PkgPath = '''',
         TypeString = ''[]forest.Tree'', Elem = 0, Key = 0, Fields = [], VisibleFields = []\<rparr>)"

section \<open>Notions for stating the properties\<close>

subsection \<open>The walk\<close>

text \<open>
  The pointer unwrapping at the head of \<open>Map\<close>, the output name the walker takes from the
  \<open>json\<close> key of a field's tag (the text before the first comma), the fields it walks, and
  the node it appends first.
\<close>

definition unwrapPtr :: "rtypes \<Rightarrow> type_id \<Rightarrow> type_id" where
  "unwrapPtr ts t = (if Kind (ts t) = KPtr then Elem (ts t) else t)"

definition outputName :: "StructField \<Rightarrow> string" where
  "outputName field = strings_Split (Tag_Get (FieldTag field) ''json'') (CHR '','') ! 0"

definition walkedField :: "StructField \<Rightarrow> bool" where
  "walkedField field \<longleftrightarrow> outputName field \<noteq> '''' \<and> outputName field \<noteq> ''-''"

definition nodeAt :: "rtypes \<Rightarrow> type_id \<Rightarrow> string \<Rightarrow> PropertyDoc option" where
  "nodeAt ts t path = setTypeInfo ts (emptyPropertyDoc\<lparr>Path := path\<rparr>) (unwrapPtr ts t)"

text \<open>
  The body of \<open>Map\<close> with the function it calls as an argument, the branches of the field
  loop joined into one test.
\<close>

definition MapBody ::
  "(rtypes \<Rightarrow> type_id \<Rightarrow> string \<Rightarrow> PropertyDoc list \<Rightarrow> PropertyDoc list option) \<Rightarrow>
   rtypes \<Rightarrow> type_id \<Rightarrow> string \<Rightarrow> PropertyDoc list \<Rightarrow> PropertyDoc list option" where
  "MapBody self ts t path properties =
     Option.bind (nodeAt ts t path) (\<lambda>doc.
       if Kind (ts (unwrapPtr ts t)) = KStruct then
         forEach (\<lambda>field properties.
                    if walkedField field
                    then self ts (FieldType field) (path @ ''.'' @ outputName field) properties
                    else Some properties)
           (VisibleFields (ts (unwrapPtr ts t))) (properties @ [doc])
       else if Kind (ts (unwrapPtr ts t)) = KSlice then
         self ts (Elem (ts (unwrapPtr ts t))) (path @ ''[*]'') (properties @ [doc])
       else if Kind (ts (unwrapPtr ts t)) = KMap then
         Option.bind (self ts (Key (ts (unwrapPtr ts t))) (path @ ''.~'') (properties @ [doc]))
           (self ts (Elem (ts (unwrapPtr ts t))) (path @ ''.*''))
       else Some (properties @ [doc]))"

text \<open>
  The nodes one call of \<open>Map\<close> appends, as a relation: \<open>walked ts t path nodes\<close> when
  the call for type \<open>t\<close> at \<open>path\<close> returns and appends \<open>nodes\<close>; \<open>walkedFields\<close> is
  the same for the loop over the fields of a struct.
\<close>

inductive walked :: "rtypes \<Rightarrow> type_id \<Rightarrow> string \<Rightarrow> PropertyDoc list \<Rightarrow> bool"
  and walkedFields :: "rtypes \<Rightarrow> string \<Rightarrow> StructField list \<Rightarrow> PropertyDoc list \<Rightarrow> bool"
  for ts :: rtypes
where
  walked_Struct:
    "nodeAt ts t path = Some doc \<Longrightarrow> Kind (ts (unwrapPtr ts t)) = KStruct \<Longrightarrow>
     walkedFields ts path (VisibleFields (ts (unwrapPtr ts t))) nodes \<Longrightarrow>
     walked ts t path (doc # nodes)"
| walked_Slice:
    "nodeAt ts t path = Some doc \<Longrightarrow> Kind (ts (unwrapPtr ts t)) = KSlice \<Longrightarrow>
     walked ts (Elem (ts (unwrapPtr ts t))) (path @ ''[*]'') nodes \<Longrightarrow>
     walked ts t path (doc # nodes)"
| walked_Map:
    "nodeAt ts t path = Some doc \<Longrightarrow> Kind (ts (unwrapPtr ts t)) = KMap \<Longrightarrow>
     walked ts (Key (ts (unwrapPtr ts t))) (path @ ''.~'') keyNodes \<Longrightarrow>
     walked ts (Elem (ts (unwrapPtr ts t))) (path @ ''.*'') valueNodes \<Longrightarrow>
     walked ts t path (doc # keyNodes @ valueNodes)"
| walked_Leaf:
    "nodeAt ts t path = Some doc \<Longrightarrow> Kind (ts (unwrapPtr ts t)) \<noteq> KStruct \<Longrightarrow>
     Kind (ts (unwrapPtr ts t)) \<noteq> KSlice \<Longrightarrow> Kind (ts (unwrapPtr ts t)) \<noteq> KMap \<Longrightarrow>
     walked ts t path [doc]"
| walkedFields_Nil:
    "walkedFields ts path [] []"
| walkedFields_Skip:
    "\<not> walkedField field \<Longrightarrow> walkedFields ts path fs nodes \<Longrightarrow>
     walkedFields ts path (field # fs) nodes"
| walkedFields_Walk:
    "walkedField field \<Longrightarrow>
     walked ts (FieldType field) (path @ ''.'' @ outputName field) fieldNodes \<Longrightarrow>
     walkedFields ts path fs nodes \<Longrightarrow>
     walkedFields ts path (field # fs) (fieldNodes @ nodes)"

text \<open>
  The segments the walker appends to the path of a node for the nodes it makes from it:
  \<open>[*]\<close> for the element of a slice, \<open>.~\<close> and \<open>.*\<close> for the key and the value of a map,
  and a dot with the output name of a walked member of a struct of the type table.
\<close>

definition pathSegment :: "rtypes \<Rightarrow> string \<Rightarrow> bool" where
  "pathSegment ts seg \<longleftrightarrow>
     seg = ''[*]'' \<or> seg = ''.~'' \<or> seg = ''.*'' \<or>
     (\<exists>t. \<exists>field\<in>set (VisibleFields (ts t)).
        walkedField field \<and> seg = ''.'' @ outputName field)"

text \<open>
  The path without its last segment, read off the text of the path: without the \<open>[*]\<close> it
  ends with, or else without its last dot and what follows the dot.
\<close>

definition parentPath :: "string \<Rightarrow> string" where
  "parentPath path =
     (if suffix ''[*]'' path then take (length path - 3) path
      else rev (tl (dropWhile (\<lambda>c. c \<noteq> CHR ''.'') (rev path))))"

text \<open>
  When one path lies at or below another: it is the other path, or goes on from it with
  the start of a new segment.
\<close>

definition below :: "string \<Rightarrow> string \<Rightarrow> bool" where
  "below path p \<longleftrightarrow>
     (\<exists>s. p = path @ s \<and> s \<noteq> [] \<and> (hd s = CHR ''.'' \<or> hd s = CHR ''[''))"

definition atOrBelow :: "string \<Rightarrow> string \<Rightarrow> bool" where
  "atOrBelow path p \<longleftrightarrow>
     (\<exists>r. p = path @ r \<and> (r = [] \<or> hd r = CHR ''.'' \<or> hd r = CHR ''[''))"

text \<open>
  Output names that cannot be mistaken for one another: in every struct the walked
  members have different output names, and no output name holds a dot or an opening
  bracket.
\<close>

definition plainNames :: "rtypes \<Rightarrow> bool" where
  "plainNames ts \<longleftrightarrow>
     (\<forall>t. distinct (map outputName (filter walkedField (VisibleFields (ts t)))) \<and>
          (\<forall>field\<in>set (VisibleFields (ts t)).
             CHR ''.'' \<notin> set (outputName field) \<and> CHR ''['' \<notin> set (outputName field)))"

text \<open>No output name of a walked member holds a dot.\<close>

definition dotlessNames :: "rtypes \<Rightarrow> bool" where
  "dotlessNames ts \<longleftrightarrow>
     (\<forall>t. \<forall>field\<in>set (VisibleFields (ts t)).
        walkedField field \<longrightarrow> CHR ''.'' \<notin> set (outputName field))"

text \<open>What the second loop of \<open>generateObjectDoc\<close> makes of one property.\<close>

definition withChildren :: "PropertyDoc list \<Rightarrow> PropertyDoc \<Rightarrow> PropertyDoc" where
  "withChildren properties property =
     property\<lparr>ChildrenPaths := findPropertyChildrenPaths (Path property) properties\<rparr>"

text \<open>
  The types the walker and the parser move to from a type: the element of a pointer or a
  slice, the key and the element of a map, the types of the fields of a struct.
\<close>

definition references :: "rtypes \<Rightarrow> type_id \<Rightarrow> type_id list" where
  "references ts t =
     (if Kind (ts t) = KPtr \<or> Kind (ts t) = KSlice then [Elem (ts t)]
      else if Kind (ts t) = KMap then [Key (ts t), Elem (ts t)]
      else if Kind (ts t) = KStruct
        then map FieldType (VisibleFields (ts t)) @ map FieldType (Fields (ts t))
      else [])"

subsection \<open>Example types\<close>

text \<open>Descriptors of the usual shapes; a struct without embedded fields shows all its fields.\<close>

definition basicType :: "Kind \<Rightarrow> string \<Rightarrow> rtype" where
  "basicType k name =
     \<lparr>Kind = k, Name = name, PkgPath = '''', TypeString = name,
      Elem = 0, Key = 0, Fields = [], VisibleFields = []\<rparr>"

definition pointerTo :: "type_id \<Rightarrow> string \<Rightarrow> rtype" where
  "pointerTo elem str =
     \<lparr>Kind = KPtr, Name = '''', PkgPath = '''', TypeString = str,
      Elem = elem, Key = 0, Fields = [], VisibleFields = []\<rparr>"

definition structType :: "string \<Rightarrow> string \<Rightarrow> string \<Rightarrow> StructField list \<Rightarrow> rtype" where
  "structType name pkgPath str fieldList =
     \<lparr>Kind = KStruct, Name = name, PkgPath = pkgPath, TypeString = str,
      Elem = 0, Key = 0, Fields = fieldList, VisibleFields = fieldList\<rparr>"

definition exportedField :: "string \<Rightarrow> type_id \<Rightarrow> (string \<times> string) list \<Rightarrow> StructField" where
  "exportedField name t tag =
     \<lparr>FieldName = name, FieldPkgPath = '''', FieldType = t, FieldTag = tag\<rparr>"

definition modelsPath :: string where
  "modelsPath = ''example.com/models''"

text \<open>
  \<^verbatim>\<open>type Account struct { Name string `json:"name"`; Secret Credentials `json:"secret"` }\<close>
  (type 0), \<open>string\<close> (type 1) and
  \<^verbatim>\<open>type Credentials struct { Token string `json:"token"` }\<close> (type 2).
\<close>

definition accountTypes :: rtypes where
  "accountTypes t =
     (if t = 0 then
        structType ''Account'' modelsPath ''models.Account''
          [exportedField ''Name'' 1 [(''json'', ''name'')],
           exportedField ''Secret'' 2 [(''json'', ''secret'')]]
      else if t = 2 then
        structType ''Credentials'' modelsPath ''models.Credentials''
          [exportedField ''Token'' 1 [(''json'', ''token'')]]
      else basicType KString ''string'')"

text \<open>
  \<^verbatim>\<open>type Teacher struct { Name string `json:"name"`; NoTag int }\<close> (type 0), as in the
  test models of the program, with \<open>string\<close> (type 1) and \<open>int\<close> (type 2).
\<close>

definition teacherTypes :: rtypes where
  "teacherTypes t =
     (if t = 0 then
        structType ''Teacher'' modelsPath ''models.Teacher''
          [exportedField ''Name'' 1 [(''json'', ''name'')],
           exportedField ''NoTag'' 2 []]
      else if t = 1 then basicType KString ''string''
      else basicType KInt ''int'')"

text \<open>
  \<^verbatim>\<open>type Pair struct { A string `json:"x"`; B string `json:"x"` }\<close> (type 0), with
  \<open>string\<close> (type 1).
\<close>

definition pairTypes :: rtypes where
  "pairTypes t =
     (if t = 0 then
        structType ''Pair'' modelsPath ''models.Pair''
          [exportedField ''A'' 1 [(''json'', ''x'')],
           exportedField ''B'' 1 [(''json'', ''x'')]]
      else basicType KString ''string'')"

definition sliceOf :: "type_id \<Rightarrow> string \<Rightarrow> rtype" where
  "sliceOf elem str =
     \<lparr>Kind = KSlice, Name = '''', PkgPath = '''', TypeString = str,
      Elem = elem, Key = 0, Fields = [], VisibleFields = []\<rparr>"

definition mapOf :: "type_id \<Rightarrow> type_id \<Rightarrow> string \<Rightarrow> rtype" where
  "mapOf key elem str =
     \<lparr>Kind = KMap, Name = '''', PkgPath = '''', TypeString = str,
      Elem = elem, Key = key, Fields = [], VisibleFields = []\<rparr>"

text \<open>
  \<^verbatim>\<open>type Container struct { Items []string `json:"items"`; Data map[string]int `json:"data"` }\<close>
  (type 0), after the list and map structs of the test models, with \<open>[]string\<close> (type 1),
  \<open>string\<close> (type 2), \<open>map[string]int\<close> (type 3) and \<open>int\<close> (type 4).
\<close>

definition containerTypes :: rtypes where
  "containerTypes t =
     (if t = 0 then
        structType ''Container'' modelsPath ''models.Container''
          [exportedField ''Items'' 1 [(''json'', ''items'')],
           exportedField ''Data'' 3 [(''json'', ''data'')]]
      else if t = 1 then sliceOf 2 ''[]string''
      else if t = 2 then basicType KString ''string''
      else if t = 3 then mapOf 2 4 ''map[string]int''
      else basicType KInt ''int'')"

definition containerRank :: "type_id \<Rightarrow> nat" where
  "containerRank t = (if t = 0 then 2 else if t = 1 \<or> t = 3 then 1 else 0)"

text \<open>
  \<^verbatim>\<open>type Node struct { Next *Node `json:"next"` }\<close> (type 0) and \<open>*Node\<close> (type 1).
\<close>

definition nodeTypes :: rtypes where
  "nodeTypes t =
     (if t = 0 then
        structType ''Node'' modelsPath ''models.Node''
          [exportedField ''Next'' 1 [(''json'', ''next'')]]
      else pointerTo 0 ''*models.Node'')"

text \<open>\<open>[]string\<close> (type 0) as the root, with \<open>string\<close> (type 1).\<close>

definition rootSliceTypes :: rtypes where
  "rootSliceTypes t =
     (if t = 0 then sliceOf 1 ''[]string'' else basicType KString ''string'')"

text \<open>
  \<^verbatim>\<open>type Obj struct { Base }\<close> (type 0) with
  \<^verbatim>\<open>type Base struct { ID string `json:"id"` }\<close> (type 1) and \<open>string\<close> (type 2). The
  struct \<open>Obj\<close> has one field, the embedded \<open>Base\<close>, which carries no annotation; its
  visible fields are \<open>Base\<close> and the promoted \<open>ID\<close>.
\<close>

definition embeddedTypes :: rtypes where
  "embeddedTypes t =
     (if t = 0 then
        \<lparr>Kind = KStruct, Name = ''Obj'', PkgPath = modelsPath, TypeString = ''models.Obj'',
         Elem = 0, Key = 0,
         Fields = [exportedField ''Base'' 1 []],
         VisibleFields =
           [exportedField ''Base'' 1 [], exportedField ''ID'' 2 [(''json'', ''id'')]]\<rparr>
      else if t = 1 then
        structType ''Base'' modelsPath ''models.Base''
          [exportedField ''ID'' 2 [(''json'', ''id'')]]
      else basicType KString ''string'')"

subsection \<open>Example documents\<close>

text \<open>
  A document with one property whose type doc and field doc each hold a \<open>Deprecated:\<close>
  line, and one whose type doc is the text of the program's own example: a paragraph, an
  empty line and a \<open>Deprecated:\<close> line.
\<close>

definition twiceDeprecated :: ObjectDoc where
  "twiceDeprecated =
     \<lparr>ObjectName = ''Student'',
      Properties =
        [emptyPropertyDoc\<lparr>Path := ''$.oldName'',
           TypeDoc := ''Deprecated: use A'', FieldDoc := ''Deprecated: use B''\<rparr>],
      Examples = [], ObjectDocText = ''''\<rparr>"

definition onceDeprecated :: ObjectDoc where
  "onceDeprecated =
     \<lparr>ObjectName = ''Foo'',
      Properties =
        [emptyPropertyDoc\<lparr>Path := ''$'',
           TypeDoc := ''Foo does X.'' @ [CHR 0x0A, CHR 0x0A] @ ''Deprecated: use Bar instead.''\<rparr>],
      Examples = [], ObjectDocText = ''''\<rparr>"

subsection \<open>Post-processing\<close>

text \<open>One property after the processors that \<open>Generate\<close> passes, in their order.\<close>

definition formatted :: "PropertyDoc \<Rightarrow> PropertyDoc" where
  "formatted property =
     removeTrailingWhitespace (extractDeprecatedInformation (removeEnumDeclaration property))"

subsection \<open>The parser\<close>

text \<open>
  The type \<open>parse\<close> documents: the element of a pointer or a slice, or the type itself.
  The key under which the entry of a named type is stored.
\<close>

definition parseTarget :: "rtypes \<Rightarrow> type_id \<Rightarrow> type_id" where
  "parseTarget ts t = (if Kind (ts t) = KPtr \<or> Kind (ts t) = KSlice then Elem (ts t) else t)"

definition typeKey :: "rtypes \<Rightarrow> type_id \<Rightarrow> string" where
  "typeKey ts t =
     Doc_Key (Doc (Name (ts (parseTarget ts t))) (PkgPath (ts (parseTarget ts t))) '''' fmempty)"

text \<open>
  The types a call of \<open>parse\<close> for \<open>t\<close> calls \<open>parse\<close> for when no call fails: \<open>t\<close>, and
  the types of all fields of a named struct it documents, with what these lead to.
\<close>

inductive visits :: "rtypes \<Rightarrow> type_id \<Rightarrow> type_id \<Rightarrow> bool" for ts :: rtypes where
  visits_self: "visits ts t t"
| visits_field:
    "PkgPath (ts (parseTarget ts t)) \<noteq> '''' \<Longrightarrow> Kind (ts (parseTarget ts t)) = KStruct \<Longrightarrow>
     field \<in> set (Fields (ts (parseTarget ts t))) \<Longrightarrow> visits ts (FieldType field) u \<Longrightarrow>
     visits ts t u"

subsection \<open>Example packages\<close>

text \<open>
  A parser with the one package \<open>example.com/models\<close>, given by its declarations. In the
  examples the rendering of a comment text is the text itself.
\<close>

definition structDecl :: "string \<Rightarrow> ast_Field list \<Rightarrow> declLookup" where
  "structDecl doc fieldList =
     Declared \<lparr>DeclDoc = doc, Specs = [TypeSpec (StructType fieldList)]\<rparr>"

definition modelsPackage :: "(string \<Rightarrow> declLookup) \<Rightarrow> goPackage" where
  "modelsPackage decls =
     \<lparr>PackagePath = modelsPath, PackageName = ''models'', TypesPath = modelsPath,
      Declarations = decls, Render = (\<lambda>text. text)\<rparr>"

definition modelsParser :: "(string \<Rightarrow> declLookup) \<Rightarrow> Parser" where
  "modelsParser decls = \<lparr>pkgs = [modelsPath \<mapsto> modelsPackage decls]\<rparr>"

text \<open>The declaration of \<open>Node\<close>, for the types \<open>nodeTypes\<close>.\<close>

definition nodeDecls :: "string \<Rightarrow> declLookup" where
  "nodeDecls name =
     (if name = ''Node''
      then structDecl ''Node is an element of a list.''
             [Field [''Next''] (Some (StarExpr (Ident ''Node''))) '''']
      else NoObject)"

text \<open>
  \<^verbatim>\<open>type Owner struct { Name string `json:"name"`; Secret Hidden `json:"-"` }\<close> (type 0),
  \<open>string\<close> (type 1) and \<^verbatim>\<open>type Hidden struct { Token string `json:"token"` }\<close>
  (type 2), with their declarations.
\<close>

definition ownerTypes :: rtypes where
  "ownerTypes t =
     (if t = 0 then
        structType ''Owner'' modelsPath ''models.Owner''
          [exportedField ''Name'' 1 [(''json'', ''name'')],
           exportedField ''Secret'' 2 [(''json'', ''-'')]]
      else if t = 2 then
        structType ''Hidden'' modelsPath ''models.Hidden''
          [exportedField ''Token'' 1 [(''json'', ''token'')]]
      else basicType KString ''string'')"

definition ownerDecls :: "string \<Rightarrow> declLookup" where
  "ownerDecls name =
     (if name = ''Owner''
      then structDecl ''Owner has a secret.''
             [Field [''Name''] (Some (Ident ''string'')) '''',
              Field [''Secret''] (Some (Ident ''Hidden'')) '''']
      else if name = ''Hidden''
      then structDecl ''Hidden is not serialized.''
             [Field [''Token''] (Some (Ident ''string'')) '''']
      else NoObject)"

text \<open>The types \<open>string\<close> (every type id) as the root, and a parser without packages.\<close>

definition stringTypes :: rtypes where
  "stringTypes t = basicType KString ''string''"

definition emptyParser :: Parser where
  "emptyParser = \<lparr>pkgs = Map.empty\<rparr>"

definition ownerRank :: "type_id \<Rightarrow> nat" where
  "ownerRank t = (if t = 0 then 2 else if t = 2 then 1 else 0)"

section \<open>Properties of the type descriptor extractor\<close>

lemma getKindString_returns:
  assumes wf: "\<forall>t. \<forall>u\<in>set (elemRefs ts t). rank u < (rank t :: nat)"
  shows "\<exists>k. getKindString ts t = Some k"
proof (induction "rank t" arbitrary: t rule: less_induct)
  case less
  show ?case
  proof (cases "Kind (ts t) = KMap")
    case True
    with wf have "rank (Key (ts t)) < rank t" "rank (Elem (ts t)) < rank t"
      by (auto simp: elemRefs_def)
    with less obtain k e where "getKindString ts (Key (ts t)) = Some k"
      "getKindString ts (Elem (ts t)) = Some e" by blast
    with True show ?thesis by (subst getKindString.simps) simp
  next
    case notMap: False
    show ?thesis
    proof (cases "Kind (ts t) = KSlice")
      case True
      with wf have "rank (Elem (ts t)) < rank t"
        by (auto simp: elemRefs_def)
      with less obtain e where "getKindString ts (Elem (ts t)) = Some e" by blast
      with True notMap show ?thesis by (subst getKindString.simps) simp
    next
      case False
      with notMap show ?thesis by (subst getKindString.simps) simp
    qed
  qed
qed

lemma Get_returns:
  assumes wf: "\<forall>t. \<forall>u\<in>set (elemRefs ts t). rank u < (rank t :: nat)"
  shows "\<exists>info. Get ts (Some t) = Some info"
proof -
  obtain k where "getKindString ts (if Kind (ts t) = KPtr then Elem (ts t) else t) = Some k"
    using getKindString_returns [OF wf] by blast
  then show ?thesis by (simp add: Get_def Let_def)
qed

lemma getKindString_leaf:
  "Kind (ts t) \<noteq> KMap \<Longrightarrow> Kind (ts t) \<noteq> KSlice \<Longrightarrow>
   getKindString ts t = Some (Kind_String (Kind (ts t)))"
  by (subst getKindString.simps) simp

lemma getKindString_Slice:
  "Kind (ts t) = KSlice \<Longrightarrow>
   getKindString ts t = Option.bind (getKindString ts (Elem (ts t))) (\<lambda>e. Some (''[]'' @ e))"
  by (subst getKindString.simps) simp

lemma getKindString_Map:
  "Kind (ts t) = KMap \<Longrightarrow>
   getKindString ts t =
     Option.bind (getKindString ts (Key (ts t))) (\<lambda>k.
     Option.bind (getKindString ts (Elem (ts t))) (\<lambda>e. Some (''map['' @ k @ '']'' @ e)))"
  by (subst getKindString.simps) simp

lemma treeTypes_simps [simp]: "Kind (treeTypes t) = KSlice" "Elem (treeTypes t) = 0"
  by (simp_all add: treeTypes_def)

lemma getKindString_tree_aux:
  assumes "getKindString ts t = Some k"
  shows "ts \<noteq> treeTypes"
proof (rule getKindString.raw_induct [where P = "\<lambda>ts t k. ts \<noteq> treeTypes", OF _ assms],
    goal_cases)
  case (1 self ts t k)
  show ?case
  proof
    assume "ts = treeTypes"
    with 1(2) obtain e where "self treeTypes 0 = Some e"
      by (auto split: Option.bind_splits)
    with 1(1) show False by blast
  qed
qed

lemma getKindString_tree: "getKindString treeTypes t = None"
  using getKindString_tree_aux [of treeTypes t]
  by (cases "getKindString treeTypes t") auto

text \<open>
  C9, as stated ("it never fails", a descriptor "for every sequence of a named element
  type"), fails: for the sequence \<open>[]Tree\<close> of the named type \<^verbatim>\<open>type Tree []Tree\<close>
  the extractor does not return.
\<close>

theorem Get_recursive_sequence_counterexample: "Get treeTypes (Some 1) = None"
  by (simp add: Get_def getKindString_tree)

text \<open>
  C9, amended. A sequence is an unnamed slice type (\<open>[]T\<close>). When the chain of slice
  elements and map keys and values from each type is finite (a rank decreases along it),
  the extractor returns a descriptor for every type, the zero descriptor for the nil type;
  for a sequence of a built-in element type (empty package path) the package is empty and
  the name is the marker \<open>[]\<close> with the element's type string; for a sequence of a named
  element type the package is the element's and the name is \<open>[]\<close> with the element's name.
\<close>

theorem Get_sequence_descriptor:
  assumes wf: "\<forall>t. \<forall>u\<in>set (elemRefs ts t). rank u < (rank t :: nat)"
  shows "Get ts None = Some \<lparr>InfoName = '''', InfoKind = '''', InfoPackage = ''''\<rparr> \<and>
         (\<exists>info. Get ts (Some t) = Some info) \<and>
         (Kind (ts t) = KSlice \<and> PkgPath (ts t) = '''' \<and> PkgPath (ts (Elem (ts t))) = '''' \<longrightarrow>
            (\<exists>kind. Get ts (Some t) =
               Some \<lparr>InfoName = ''[]'' @ TypeString (ts (Elem (ts t))), InfoKind = kind,
                     InfoPackage = ''''\<rparr>)) \<and>
         (Kind (ts t) = KSlice \<and> PkgPath (ts t) = '''' \<and> PkgPath (ts (Elem (ts t))) \<noteq> '''' \<longrightarrow>
            (\<exists>kind. Get ts (Some t) =
               Some \<lparr>InfoName = ''[]'' @ Name (ts (Elem (ts t))), InfoKind = kind,
                     InfoPackage = PkgPath (ts (Elem (ts t)))\<rparr>))"
proof -
  obtain k where k: "getKindString ts t = Some k"
    using getKindString_returns [OF wf] by blast
  obtain k' where k': "getKindString ts (Elem (ts t)) = Some k'"
    using getKindString_returns [OF wf] by blast
  have nil: "Get ts None = Some \<lparr>InfoName = '''', InfoKind = '''', InfoPackage = ''''\<rparr>"
    by (simp add: Get_def)
  have ret: "\<exists>info. Get ts (Some t) = Some info"
    using k k' by (simp add: Get_def Let_def)
  have builtin: "\<exists>kind. Get ts (Some t) =
      Some \<lparr>InfoName = ''[]'' @ TypeString (ts (Elem (ts t))), InfoKind = kind, InfoPackage = ''''\<rparr>"
    if "Kind (ts t) = KSlice" "PkgPath (ts t) = ''''" "PkgPath (ts (Elem (ts t))) = ''''"
    using that k by (simp add: Get_def Let_def)
  have named: "\<exists>kind. Get ts (Some t) =
      Some \<lparr>InfoName = ''[]'' @ Name (ts (Elem (ts t))), InfoKind = kind,
            InfoPackage = PkgPath (ts (Elem (ts t)))\<rparr>"
    if "Kind (ts t) = KSlice" "PkgPath (ts t) = ''''" "PkgPath (ts (Elem (ts t))) \<noteq> ''''"
    using that k by (simp add: Get_def Let_def)
  from nil ret builtin named show ?thesis by blast
qed

lemma sliceTypes_simps:
  "sliceTypes 0 = \<lparr>Kind = KInt, Name = ''int'', PkgPath = '''', TypeString = ''int'',
         Elem = 0, Key = 0, Fields = [], VisibleFields = []\<rparr>"
  "sliceTypes (Suc 0) = \<lparr>Kind = KSlice, Name = '''', PkgPath = '''', TypeString = ''[]int'',
         Elem = 0, Key = 0, Fields = [], VisibleFields = []\<rparr>"
  "sliceTypes 2 = \<lparr>Kind = KString, Name = ''customString'', PkgPath = packageName,
         TypeString = ''typeinfo.customString'',
         Elem = 0, Key = 0, Fields = [], VisibleFields = []\<rparr>"
  "sliceTypes 3 = \<lparr>Kind = KSlice, Name = '''', PkgPath = '''',
         TypeString = ''[]typeinfo.customString'',
         Elem = 2, Key = 0, Fields = [], VisibleFields = []\<rparr>"
  by (simp_all add: sliceTypes_def)

text \<open>The expectations of the package's test for \<open>[]int\<close> and \<open>[]customString\<close>.\<close>

lemma Get_test_slices:
  "Get sliceTypes (Some 1) =
     Some \<lparr>InfoName = ''[]int'', InfoKind = ''[]int'', InfoPackage = ''''\<rparr>"
  "Get sliceTypes (Some 3) =
     Some \<lparr>InfoName = ''[]customString'', InfoKind = ''[]string'', InfoPackage = packageName\<rparr>"
  by (simp_all add: Get_def Let_def getKindString_Slice getKindString_leaf sliceTypes_simps
      packageName_def)

theorem Get_sequence_descriptor_witness:
  "(\<exists>kind. Get sliceTypes (Some 3) =
     Some \<lparr>InfoName = ''[]customString'', InfoKind = kind, InfoPackage = packageName\<rparr>) \<and>
   (\<exists>kind. Get sliceTypes (Some 1) =
     Some \<lparr>InfoName = ''[]int'', InfoKind = kind, InfoPackage = ''''\<rparr>)"
proof -
  have wf: "\<forall>t. \<forall>u\<in>set (elemRefs sliceTypes t). sliceRank u < sliceRank t"
    by (simp add: elemRefs_def sliceTypes_def sliceRank_def)
  from Get_sequence_descriptor [OF wf, of 3] Get_sequence_descriptor [OF wf, of 1]
  show ?thesis
    by (simp add: sliceTypes_simps packageName_def)
qed

section \<open>Properties of the structural walker\<close>

subsection \<open>Unfolding one call\<close>

lemma strings_Split_nonempty: "strings_Split s sep \<noteq> []"
  by (induction s) (auto split: list.splits)

lemma fieldBody_eq:
  "(\<lambda>field properties.
      (let tags = strings_Split (Tag_Get (FieldTag field) ''json'') (CHR '','') in
       if length tags = 0 then Some properties
       else
         (let name = tags ! 0 in
          if name = '''' \<or> name = ''-'' then Some properties
          else self ts (FieldType field) (path @ ''.'' @ name) properties))) =
   (\<lambda>field properties.
      if walkedField field
      then self ts (FieldType field) (path @ ''.'' @ outputName field) properties
      else Some properties)"
  by (intro ext) (simp add: walkedField_def outputName_def Let_def strings_Split_nonempty)

lemma unwrapPtr_fold: "(if Kind (ts t) = KPtr then Elem (ts t) else t) = unwrapPtr ts t"
  by (simp add: unwrapPtr_def)

lemma Map_unfold: "Map ts t path properties = MapBody Map ts t path properties"
  unfolding MapBody_def nodeAt_def
  apply (subst Map.simps)
  apply (subst fieldBody_eq)
  apply (subst unwrapPtr_fold)
  apply (simp add: Let_def)
  done

subsection \<open>What a call appends\<close>

lemma Map_walked:
  assumes "Map ts t path properties = Some result"
  shows "\<exists>nodes. result = properties @ nodes \<and> walked ts t path nodes"
proof (rule Map.raw_induct
    [where P = "\<lambda>ts t path properties result.
        \<exists>nodes. result = properties @ nodes \<and> walked ts t path nodes", OF _ assms],
    goal_cases)
  case (1 self ts t path properties result)
  have body: "MapBody self ts t path properties = Some result"
    using 1(2) [unfolded fieldBody_eq unwrapPtr_fold]
    unfolding MapBody_def nodeAt_def Let_def .
  then obtain doc where doc: "nodeAt ts t path = Some doc"
    by (auto simp: MapBody_def split: Option.bind_splits)
  have loop: "\<exists>nodes. s' = s @ nodes \<and> walkedFields ts path fs nodes"
    if "forEach (\<lambda>field properties.
                    if walkedField field
                    then self ts (FieldType field) (path @ ''.'' @ outputName field) properties
                    else Some properties) fs s = Some s'" for fs s s'
    using that
  proof (induction fs arbitrary: s)
    case Nil
    then show ?case by (auto intro: walkedFields_Nil)
  next
    case (Cons field fs)
    show ?case
    proof (cases "walkedField field")
      case True
      with Cons.prems obtain s1 where
        s1: "self ts (FieldType field) (path @ ''.'' @ outputName field) s = Some s1"
        and rest: "forEach (\<lambda>field properties.
                    if walkedField field
                    then self ts (FieldType field) (path @ ''.'' @ outputName field) properties
                    else Some properties) fs s1 = Some s'"
        by (auto split: Option.bind_splits)
      from 1(1) [OF s1] obtain n1 where
        n1: "s1 = s @ n1" "walked ts (FieldType field) (path @ ''.'' @ outputName field) n1"
        by auto
      from Cons.IH [OF rest] obtain n2 where n2: "s' = s1 @ n2" "walkedFields ts path fs n2"
        by auto
      from True n1 n2 show ?thesis
        by (auto intro: walkedFields_Walk)
    next
      case False
      with Cons.prems have "forEach (\<lambda>field properties.
                    if walkedField field
                    then self ts (FieldType field) (path @ ''.'' @ outputName field) properties
                    else Some properties) fs s = Some s'"
        by simp
      from Cons.IH [OF this] False show ?thesis
        by (auto intro: walkedFields_Skip)
    qed
  qed
  consider (struct) "Kind (ts (unwrapPtr ts t)) = KStruct"
    | (slice) "Kind (ts (unwrapPtr ts t)) = KSlice"
    | (map) "Kind (ts (unwrapPtr ts t)) = KMap"
    | (leaf) "Kind (ts (unwrapPtr ts t)) \<noteq> KStruct" "Kind (ts (unwrapPtr ts t)) \<noteq> KSlice"
        "Kind (ts (unwrapPtr ts t)) \<noteq> KMap"
    by blast
  then show ?case
  proof cases
    case struct
    with body doc loop [of "VisibleFields (ts (unwrapPtr ts t))" "properties @ [doc]" result]
    show ?thesis
      by (auto simp: MapBody_def intro: walked_Struct)
  next
    case slice
    with body doc have
      "self ts (Elem (ts (unwrapPtr ts t))) (path @ ''[*]'') (properties @ [doc]) = Some result"
      by (simp add: MapBody_def)
    from 1(1) [OF this] doc slice show ?thesis
      by (auto intro: walked_Slice)
  next
    case map
    with body doc obtain s1 where
      k: "self ts (Key (ts (unwrapPtr ts t))) (path @ ''.~'') (properties @ [doc]) = Some s1"
      and v: "self ts (Elem (ts (unwrapPtr ts t))) (path @ ''.*'') s1 = Some result"
      by (auto simp: MapBody_def split: Option.bind_splits)
    from 1(1) [OF k] 1(1) [OF v] doc map show ?thesis
      by (auto intro: walked_Map)
  next
    case leaf
    with body doc show ?thesis
      by (auto simp: MapBody_def intro: walked_Leaf)
  qed
qed

lemma walked_imp_Map:
  "walked ts t path nodes \<Longrightarrow> Map ts t path properties = Some (properties @ nodes)"
  and walkedFields_forEach:
  "walkedFields ts path fs nodes \<Longrightarrow>
   forEach (\<lambda>field properties.
              if walkedField field
              then Map ts (FieldType field) (path @ ''.'' @ outputName field) properties
              else Some properties) fs properties = Some (properties @ nodes)"
proof (induction arbitrary: properties and properties rule: walked_walkedFields.inducts)
  case (walked_Struct t path doc nodes)
  then show ?case
    by (subst Map_unfold) (simp add: MapBody_def)
next
  case (walked_Slice t path doc nodes)
  then show ?case
    by (subst Map_unfold) (simp add: MapBody_def)
next
  case (walked_Map t path doc keyNodes valueNodes)
  then show ?case
    by (subst Map_unfold) (simp add: MapBody_def)
next
  case (walked_Leaf t path doc)
  then show ?case
    by (subst Map_unfold) (simp add: MapBody_def)
next
  case (walkedFields_Nil path)
  then show ?case by simp
next
  case (walkedFields_Skip field path fs nodes)
  then show ?case by simp
next
  case (walkedFields_Walk field path fieldNodes fs nodes)
  then show ?case by simp
qed

lemma Map_iff_walked:
  "Map ts t path properties = Some result \<longleftrightarrow>
   (\<exists>nodes. result = properties @ nodes \<and> walked ts t path nodes)"
  using Map_walked walked_imp_Map by blast

subsection \<open>The paths of a walk\<close>

lemma nodeAt_Path: "nodeAt ts t path = Some doc \<Longrightarrow> Path doc = path"
  by (auto simp: nodeAt_def setTypeInfo_def split: Option.bind_splits)

lemma walked_paths:
  "walked ts t path nodes \<Longrightarrow>
     \<exists>doc rest. nodes = doc # rest \<and> Path doc = path \<and> (\<forall>n\<in>set rest. below path (Path n))"
  and walkedFields_paths:
  "walkedFields ts path fs nodes \<Longrightarrow>
     \<forall>n\<in>set nodes. \<exists>field\<in>set fs. walkedField field \<and>
        (Path n = path @ ''.'' @ outputName field \<or>
         below (path @ ''.'' @ outputName field) (Path n))"
proof (induction rule: walked_walkedFields.inducts)
  case (walked_Struct t path doc nodes)
  then show ?case
    by (fastforce simp: nodeAt_Path below_def)
next
  case (walked_Slice t path doc nodes)
  then show ?case
    by (fastforce simp: nodeAt_Path below_def)
next
  case (walked_Map t path doc keyNodes valueNodes)
  then show ?case
    by (fastforce simp: nodeAt_Path below_def)
next
  case (walked_Leaf t path doc)
  then show ?case by (simp add: nodeAt_Path)
next
  case (walkedFields_Nil path)
  then show ?case by simp
next
  case (walkedFields_Skip field path fs nodes)
  then show ?case by auto
next
  case (walkedFields_Walk field path fieldNodes fs nodes)
  then show ?case by auto
qed

lemma walked_parents:
  "walked ts t path nodes \<Longrightarrow>
     \<forall>n\<in>set (tl nodes). \<exists>m\<in>set nodes. \<exists>seg. pathSegment ts seg \<and> Path n = Path m @ seg"
  and walkedFields_parents:
  "walkedFields ts path fs nodes \<Longrightarrow>
     \<forall>n\<in>set nodes.
        (\<exists>field\<in>set fs. walkedField field \<and> Path n = path @ ''.'' @ outputName field) \<or>
        (\<exists>m\<in>set nodes. \<exists>seg. pathSegment ts seg \<and> Path n = Path m @ seg)"
proof (induction rule: walked_walkedFields.inducts)
  case (walked_Struct t path doc nodes)
  show ?case
  proof
    fix n assume "n \<in> set (tl (doc # nodes))"
    then have "n \<in> set nodes" by simp
    with walked_Struct(4) consider
      (top) field where "field \<in> set (VisibleFields (ts (unwrapPtr ts t)))" "walkedField field"
        "Path n = path @ ''.'' @ outputName field"
      | (inner) m seg where "m \<in> set nodes" "pathSegment ts seg" "Path n = Path m @ seg"
      by blast
    then show "\<exists>m\<in>set (doc # nodes). \<exists>seg. pathSegment ts seg \<and> Path n = Path m @ seg"
    proof cases
      case top
      then have "pathSegment ts (''.'' @ outputName field)"
        unfolding pathSegment_def by blast
      with top(3) walked_Struct(1) show ?thesis
        by (intro bexI [of _ doc] exI [of _ "''.'' @ outputName field"])
          (simp_all add: nodeAt_Path)
    next
      case inner
      then show ?thesis by auto
    qed
  qed
next
  case (walked_Slice t path doc nodes)
  from walked_Slice(3) obtain e rest where
    nodes: "nodes = e # rest" "Path e = path @ ''[*]''"
    using walked_paths by blast
  have seg: "pathSegment ts ''[*]''" by (simp add: pathSegment_def)
  show ?case
  proof
    fix n assume "n \<in> set (tl (doc # nodes))"
    then consider "n = e" | "n \<in> set (tl nodes)"
      using nodes by auto
    then show "\<exists>m\<in>set (doc # nodes). \<exists>seg. pathSegment ts seg \<and> Path n = Path m @ seg"
    proof cases
      case 1
      with nodes seg walked_Slice(1) show ?thesis by (auto simp: nodeAt_Path)
    next
      case 2
      with walked_Slice(4) obtain m seg where "m \<in> set nodes" "pathSegment ts seg"
        "Path n = Path m @ seg" by blast
      then show ?thesis by auto
    qed
  qed
next
  case (walked_Map t path doc keyNodes valueNodes)
  from walked_Map(3) obtain k krest where
    k: "keyNodes = k # krest" "Path k = path @ ''.~''"
    using walked_paths by blast
  from walked_Map(5) obtain v vrest where
    v: "valueNodes = v # vrest" "Path v = path @ ''.*''"
    using walked_paths by blast
  have seg: "pathSegment ts ''.~''" "pathSegment ts ''.*''" by (simp_all add: pathSegment_def)
  show ?case
  proof
    fix n assume "n \<in> set (tl (doc # keyNodes @ valueNodes))"
    then consider "n = k" | "n \<in> set krest" | "n = v" | "n \<in> set vrest"
      using k v by auto
    then show "\<exists>m\<in>set (doc # keyNodes @ valueNodes). \<exists>seg. pathSegment ts seg \<and> Path n = Path m @ seg"
    proof cases
      case 1
      with k seg walked_Map(1) show ?thesis by (auto simp: nodeAt_Path)
    next
      case 2
      with k have "n \<in> set (tl keyNodes)" by simp
      with walked_Map(4) obtain m seg where "m \<in> set keyNodes" "pathSegment ts seg" "Path n = Path m @ seg"
        by blast
      then show ?thesis by auto
    next
      case 3
      with v seg walked_Map(1) show ?thesis by (auto simp: nodeAt_Path)
    next
      case 4
      with v have "n \<in> set (tl valueNodes)" by simp
      with walked_Map(6) obtain m seg where "m \<in> set valueNodes" "pathSegment ts seg" "Path n = Path m @ seg"
        by blast
      then show ?thesis by auto
    qed
  qed
next
  case (walked_Leaf t path doc)
  then show ?case by simp
next
  case (walkedFields_Nil path)
  then show ?case by simp
next
  case (walkedFields_Skip field path fs nodes)
  then show ?case by fastforce
next
  case (walkedFields_Walk field path fieldNodes fs nodes)
  from walkedFields_Walk(2) obtain d rest where
    d: "fieldNodes = d # rest" "Path d = path @ ''.'' @ outputName field"
    using walked_paths by blast
  show ?case
  proof
    fix n assume "n \<in> set (fieldNodes @ nodes)"
    then consider "n = d" | "n \<in> set rest" | "n \<in> set nodes"
      using d by auto
    then show "(\<exists>f\<in>set (field # fs). walkedField f \<and> Path n = path @ ''.'' @ outputName f) \<or>
        (\<exists>m\<in>set (fieldNodes @ nodes). \<exists>seg. pathSegment ts seg \<and> Path n = Path m @ seg)"
    proof cases
      case 1
      with d walkedFields_Walk(1) show ?thesis by simp
    next
      case 2
      with d have "n \<in> set (tl fieldNodes)" by simp
      with walkedFields_Walk(3) obtain m seg where "m \<in> set fieldNodes" "pathSegment ts seg"
        "Path n = Path m @ seg" by blast
      then show ?thesis by auto
    next
      case 3
      with walkedFields_Walk(5) show ?thesis by auto
    qed
  qed
qed

lemma takeWhile_name:
  assumes "\<forall>c\<in>set a. P c" and "r = [] \<or> \<not> P (hd r)"
  shows "takeWhile P (a @ r) = a"
proof -
  from assms(2) have "takeWhile P r = []" by (cases r) auto
  with assms(1) show ?thesis by (simp add: takeWhile_append2)
qed

lemma name_unique:
  assumes eq: "a @ r = b @ s"
    and a: "CHR ''.'' \<notin> set a" "CHR ''['' \<notin> set a"
    and b: "CHR ''.'' \<notin> set b" "CHR ''['' \<notin> set b"
    and r: "r = [] \<or> hd r = CHR ''.'' \<or> hd r = CHR ''[''"
    and s: "s = [] \<or> hd s = CHR ''.'' \<or> hd s = CHR ''[''"
  shows "a = b"
proof -
  let ?P = "\<lambda>c. c \<noteq> CHR ''.'' \<and> c \<noteq> CHR ''[''"
  have "takeWhile ?P (a @ r) = a"
    using a r by (intro takeWhile_name) auto
  moreover have "takeWhile ?P (b @ s) = b"
    using b s by (intro takeWhile_name) auto
  ultimately show ?thesis using eq by simp
qed

lemma atOrBelow_iff: "atOrBelow path p \<longleftrightarrow> p = path \<or> below path p"
  by (auto simp: atOrBelow_def below_def)

lemma walked_atOrBelow:
  assumes "walked ts t path nodes" "n \<in> set nodes"
  shows "atOrBelow path (Path n)"
  using walked_paths [OF assms(1)] assms(2)
  by (auto simp: atOrBelow_iff)

lemma walkedFields_atOrBelow:
  assumes "walkedFields ts path fs nodes" "n \<in> set nodes"
  shows "\<exists>field\<in>set fs. walkedField field \<and> atOrBelow (path @ ''.'' @ outputName field) (Path n)"
  using walkedFields_paths [OF assms(1)] assms(2)
  by (fastforce simp: atOrBelow_iff)

lemma atOrBelow_neq:
  assumes "atOrBelow (path @ seg) p" "seg \<noteq> []"
  shows "p \<noteq> path"
  using assms by (auto simp: atOrBelow_def)

lemma fields_disjoint:
  assumes n1: "atOrBelow (path @ ''.'' @ a) p" and n2: "atOrBelow (path @ ''.'' @ b) p"
    and a: "CHR ''.'' \<notin> set a" "CHR ''['' \<notin> set a"
    and b: "CHR ''.'' \<notin> set b" "CHR ''['' \<notin> set b"
  shows "a = b"
proof -
  from n1 obtain r where r: "p = path @ ''.'' @ a @ r" "r = [] \<or> hd r = CHR ''.'' \<or> hd r = CHR ''[''"
    by (auto simp: atOrBelow_def)
  from n2 obtain s where s: "p = path @ ''.'' @ b @ s" "s = [] \<or> hd s = CHR ''.'' \<or> hd s = CHR ''[''"
    by (auto simp: atOrBelow_def)
  from r(1) s(1) have "a @ r = b @ s" by simp
  then show ?thesis using a b r(2) s(2) by (rule name_unique)
qed

lemma key_value_disjoint:
  assumes "atOrBelow (path @ ''.~'') p" "atOrBelow (path @ ''.*'') p"
  shows False
  using assms by (auto simp: atOrBelow_def)

lemma walked_distinct:
  assumes plain: "plainNames ts"
  shows "walked ts t path nodes \<Longrightarrow> distinct (map Path nodes)"
  and "walkedFields ts path fs nodes \<Longrightarrow>
     distinct (map outputName (filter walkedField fs)) \<longrightarrow>
     (\<forall>field\<in>set fs. CHR ''.'' \<notin> set (outputName field) \<and> CHR ''['' \<notin> set (outputName field)) \<longrightarrow>
     distinct (map Path nodes)"
proof (induction rule: walked_walkedFields.inducts)
  case (walked_Struct t path doc nodes)
  from plain have d: "distinct (map Path nodes)"
    using walked_Struct(4) by (simp add: plainNames_def)
  have "Path n \<noteq> path" if "n \<in> set nodes" for n
    using walkedFields_atOrBelow [OF walked_Struct(3) that]
    by (auto dest: atOrBelow_neq)
  with d walked_Struct(1) show ?case
    by (auto simp: nodeAt_Path)
next
  case (walked_Slice t path doc nodes)
  have "Path n \<noteq> path" if "n \<in> set nodes" for n
    using walked_atOrBelow [OF walked_Slice(3) that]
    by (auto dest: atOrBelow_neq)
  with walked_Slice(1,4) show ?case
    by (auto simp: nodeAt_Path)
next
  case (walked_Map t path doc keyNodes valueNodes)
  have k: "Path n \<noteq> path" if "n \<in> set keyNodes" for n
    using walked_atOrBelow [OF walked_Map(3) that]
    by (auto dest: atOrBelow_neq)
  have v: "Path n \<noteq> path" if "n \<in> set valueNodes" for n
    using walked_atOrBelow [OF walked_Map(5) that]
    by (auto dest: atOrBelow_neq)
  have kv: "Path n \<noteq> Path m" if "n \<in> set keyNodes" "m \<in> set valueNodes" for n m
    using walked_atOrBelow [OF walked_Map(3) that(1)] walked_atOrBelow [OF walked_Map(5) that(2)]
    by (auto dest: key_value_disjoint)
  from k v kv walked_Map(1,4,6) show ?case
    by (auto simp: nodeAt_Path)
next
  case (walked_Leaf t path doc)
  then show ?case by simp
next
  case (walkedFields_Nil path)
  then show ?case by simp
next
  case (walkedFields_Skip field path fs nodes)
  then show ?case by simp
next
  case (walkedFields_Walk field path fieldNodes fs nodes)
  show ?case
  proof (intro impI)
    assume names: "distinct (map outputName (filter walkedField (field # fs)))"
      and plainf: "\<forall>f\<in>set (field # fs). CHR ''.'' \<notin> set (outputName f) \<and> CHR ''['' \<notin> set (outputName f)"
    from names walkedFields_Walk(1) have
      fresh: "outputName field \<notin> outputName ` set (filter walkedField fs)"
      and names': "distinct (map outputName (filter walkedField fs))"
      by auto
    from walkedFields_Walk(5) names' plainf have d2: "distinct (map Path nodes)" by simp
    have cross: "Path n \<noteq> Path m" if n: "n \<in> set fieldNodes" and m: "m \<in> set nodes" for n m
    proof
      assume eq: "Path n = Path m"
      from walkedFields_atOrBelow [OF walkedFields_Walk(4) m] obtain f where
        f: "f \<in> set fs" "walkedField f" "atOrBelow (path @ ''.'' @ outputName f) (Path m)"
        by blast
      from walked_atOrBelow [OF walkedFields_Walk(2) n]
      have "atOrBelow (path @ ''.'' @ outputName field) (Path m)"
        using eq by simp
      from fields_disjoint [OF this f(3)] plainf f(1)
      have "outputName field = outputName f" by auto
      with fresh f(1,2) show False by auto
    qed
    from walkedFields_Walk(3) d2 cross show "distinct (map Path (fieldNodes @ nodes))"
      by auto
  qed
qed

subsection \<open>The children pass\<close>

lemma strings_Contains_dot: "strings_Contains s ''.'' \<longleftrightarrow> CHR ''.'' \<in> set s"
  by (induction s) auto

lemma findPropertyChildrenPaths_set:
  "set (findPropertyChildrenPaths parent properties) =
     {parent @ ''.'' @ rel | rel.
        (\<exists>n\<in>set properties. Path n = parent @ ''.'' @ rel) \<and> CHR ''.'' \<notin> set rel}"
proof (induction properties)
  case Nil
  show ?case by simp
next
  case (Cons property properties)
  show ?case
  proof (cases "prefix (parent @ ''.'') (Path property)")
    case True
    then obtain rel where rel: "Path property = (parent @ ''.'') @ rel"
      by (auto simp: prefix_def)
    then have cut: "strings_CutPrefix (Path property) (parent @ ''.'') = (rel, True)"
      by (simp add: strings_CutPrefix_def)
    show ?thesis
    proof (cases "CHR ''.'' \<in> set rel")
      case True
      with cut rel Cons.IH show ?thesis
        by (auto simp: strings_Contains_dot)
    next
      case False
      with cut rel Cons.IH show ?thesis
        by (auto simp: strings_Contains_dot)
    qed
  next
    case False
    then have cut: "strings_CutPrefix (Path property) (parent @ ''.'') = (Path property, False)"
      by (simp add: strings_CutPrefix_def)
    from False have "Path property \<noteq> parent @ ''.'' @ rel" for rel
      by (auto simp: prefix_def)
    with cut Cons.IH show ?thesis
      by auto
  qed
qed

lemma findPropertyChildrenPaths_cong:
  "map Path ps = map Path ps' \<Longrightarrow>
   findPropertyChildrenPaths parent ps = findPropertyChildrenPaths parent ps'"
proof (induction ps arbitrary: ps')
  case Nil
  then show ?case by simp
next
  case (Cons p ps)
  then obtain p' ps'' where "ps' = p' # ps''" "Path p = Path p'" "map Path ps = map Path ps''"
    by (cases ps') auto
  with Cons.IH [of ps''] show ?case by (auto split: prod.splits)
qed

lemma addChildrenPaths_steps:
  "k \<le> length properties \<Longrightarrow>
   fold (\<lambda>i properties.
             (let property = properties ! i;
                  childrenPaths = findPropertyChildrenPaths (Path property) properties
              in properties[i := property\<lparr>ChildrenPaths := childrenPaths\<rparr>]))
          [0 ..< k] properties =
   map (withChildren properties) (take k properties) @ drop k properties"
proof (induction k)
  case 0
  show ?case by simp
next
  case (Suc k)
  let ?L = "map (withChildren properties) (take k properties) @ drop k properties"
  from Suc.prems have k: "k < length properties" by simp
  have paths: "map Path ?L = map Path properties"
  proof -
    have "map Path (map (withChildren properties) (take k properties)) = map Path (take k properties)"
      by (simp add: withChildren_def)
    then have "map Path ?L = map Path (take k properties @ drop k properties)"
      by (simp del: append_take_drop_id)
    then show ?thesis by simp
  qed
  have nth: "?L ! k = properties ! k"
    using k by (simp add: nth_append)
  have dk: "drop k properties = properties ! k # drop (Suc k) properties"
    using k by (simp add: Cons_nth_drop_Suc)
  let ?F = "\<lambda>i properties.
             (let property = properties ! i;
                  childrenPaths = findPropertyChildrenPaths (Path property) properties
              in properties[i := property\<lparr>ChildrenPaths := childrenPaths\<rparr>])"
  have upd: "?L[k := withChildren properties (properties ! k)] =
        map (withChildren properties) (take (Suc k) properties) @ drop (Suc k) properties"
    using k by (simp add: list_update_append take_Suc_conv_app_nth dk)
  have same: "findPropertyChildrenPaths (Path (properties ! k)) ?L =
      findPropertyChildrenPaths (Path (properties ! k)) properties"
    by (rule findPropertyChildrenPaths_cong [OF paths])
  have step: "?F k ?L = ?L[k := withChildren properties (properties ! k)]"
    unfolding Let_def nth same withChildren_def ..
  have "fold ?F [0 ..< Suc k] properties = ?F k (fold ?F [0 ..< k] properties)"
    by simp
  also have "\<dots> = ?F k ?L"
    using Suc.IH k by simp
  also have "\<dots> = ?L[k := withChildren properties (properties ! k)]"
    by (rule step)
  also have "\<dots> = map (withChildren properties) (take (Suc k) properties) @ drop (Suc k) properties"
    by (rule upd)
  finally show ?case .
qed

lemma addChildrenPaths_map:
  "addChildrenPaths properties = map (withChildren properties) properties"
  using addChildrenPaths_steps [of "length properties" properties]
  by (simp add: addChildrenPaths_def)

subsection \<open>When the walk returns\<close>

lemma elemRefs_references: "set (elemRefs ts t) \<subseteq> set (references ts t)"
  by (auto simp: elemRefs_def references_def)

lemma nodeAt_returns:
  assumes wf: "\<forall>t. \<forall>u\<in>set (references ts t). rank u < (rank t :: nat)"
  shows "\<exists>doc. nodeAt ts t path = Some doc"
proof -
  from wf elemRefs_references have "\<forall>t. \<forall>u\<in>set (elemRefs ts t). rank u < rank t"
    by blast
  from Get_returns [OF this, of "unwrapPtr ts t"]
  obtain info where "Get ts (Some (unwrapPtr ts t)) = Some info" by blast
  then show ?thesis by (simp add: nodeAt_def setTypeInfo_def)
qed

lemma walked_exists:
  assumes wf: "\<forall>t. \<forall>u\<in>set (references ts t). rank u < (rank t :: nat)"
  shows "\<exists>nodes. walked ts t path nodes"
proof (induction "rank t" arbitrary: t path rule: less_induct)
  case less
  let ?u = "unwrapPtr ts t"
  have u: "rank ?u \<le> rank t"
  proof (cases "Kind (ts t) = KPtr")
    case True
    then have "Elem (ts t) \<in> set (references ts t)" by (simp add: references_def)
    with wf have "rank (Elem (ts t)) < rank t" by blast
    with True show ?thesis by (simp add: unwrapPtr_def)
  next
    case False
    then show ?thesis by (simp add: unwrapPtr_def)
  qed
  obtain doc where doc: "nodeAt ts t path = Some doc"
    using nodeAt_returns [OF wf] by blast
  consider (struct) "Kind (ts ?u) = KStruct"
    | (slice) "Kind (ts ?u) = KSlice"
    | (map) "Kind (ts ?u) = KMap"
    | (leaf) "Kind (ts ?u) \<noteq> KStruct" "Kind (ts ?u) \<noteq> KSlice" "Kind (ts ?u) \<noteq> KMap"
    by blast
  then show ?case
  proof cases
    case struct
    have "\<exists>nodes. walkedFields ts path fs nodes"
      if "set fs \<subseteq> set (VisibleFields (ts ?u))" for fs
      using that
    proof (induction fs)
      case Nil
      show ?case by (blast intro: walkedFields_Nil)
    next
      case (Cons field fs)
      then obtain nodes where nodes: "walkedFields ts path fs nodes" by auto
      show ?case
      proof (cases "walkedField field")
        case True
        from Cons.prems have "FieldType field \<in> set (references ts ?u)"
          using struct by (auto simp: references_def)
        with wf have "rank (FieldType field) < rank ?u" by blast
        with u have "rank (FieldType field) < rank t" by simp
        from less [OF this] obtain fieldNodes where
          "walked ts (FieldType field) (path @ ''.'' @ outputName field) fieldNodes"
          by blast
        with True nodes show ?thesis by (blast intro: walkedFields_Walk)
      next
        case False
        with nodes show ?thesis by (blast intro: walkedFields_Skip)
      qed
    qed
    then obtain nodes where "walkedFields ts path (VisibleFields (ts ?u)) nodes" by blast
    with doc struct show ?thesis by (blast intro: walked_Struct)
  next
    case slice
    then have "Elem (ts ?u) \<in> set (references ts ?u)"
      by (simp add: references_def)
    with wf have "rank (Elem (ts ?u)) < rank ?u" by blast
    with u have "rank (Elem (ts ?u)) < rank t" by simp
    from less [OF this] obtain nodes where "walked ts (Elem (ts ?u)) (path @ ''[*]'') nodes"
      by blast
    with doc slice show ?thesis by (blast intro: walked_Slice)
  next
    case map
    then have "Key (ts ?u) \<in> set (references ts ?u)" "Elem (ts ?u) \<in> set (references ts ?u)"
      by (simp_all add: references_def)
    with wf have "rank (Key (ts ?u)) < rank ?u" "rank (Elem (ts ?u)) < rank ?u" by blast+
    with u have "rank (Key (ts ?u)) < rank t" "rank (Elem (ts ?u)) < rank t" by simp_all
    from less [OF this(1)] less [OF this(2)] obtain keyNodes valueNodes where
      "walked ts (Key (ts ?u)) (path @ ''.~'') keyNodes"
      "walked ts (Elem (ts ?u)) (path @ ''.*'') valueNodes"
      by blast
    with doc map show ?thesis by (blast intro: walked_Map)
  next
    case leaf
    with doc show ?thesis by (blast intro: walked_Leaf)
  qed
qed

lemma Map_returns:
  assumes wf: "\<forall>t. \<forall>u\<in>set (references ts t). rank u < (rank t :: nat)"
  shows "\<exists>result. Map ts t path properties = Some result"
  using walked_exists [OF wf] walked_imp_Map by blast

lemma nodeTypes_struct: "Kind (nodeTypes (unwrapPtr nodeTypes t)) = KStruct"
  "VisibleFields (nodeTypes (unwrapPtr nodeTypes t)) =
     [exportedField ''Next'' 1 [(''json'', ''next'')]]"
  by (simp_all add: nodeTypes_def unwrapPtr_def structType_def pointerTo_def)

lemma nodeTypes_not_walked:
  "walked nodeTypes t path nodes \<Longrightarrow> False"
  and "walkedFields nodeTypes path fs nodes \<Longrightarrow> \<forall>field\<in>set fs. \<not> walkedField field"
proof (induction rule: walked_walkedFields.inducts)
  case (walked_Struct t path doc nodes)
  then show ?case
    by (simp add: nodeTypes_struct walkedField_def outputName_def exportedField_def Tag_Get_def)
qed (simp_all add: nodeTypes_struct)

lemma Map_nodeTypes: "Map nodeTypes t path properties = None"
  using Map_walked [of nodeTypes t path properties] nodeTypes_not_walked(1)
  by (cases "Map nodeTypes t path properties") auto

subsection \<open>The field loop and the generated document\<close>

lemma forEach_filter:
  "forEach (\<lambda>x s. if P x then g x s else Some s) xs s = forEach g (filter P xs) s"
  by (induction xs arbitrary: s) (auto split: Option.bind_splits)

lemma untagged_outputName:
  "map_of (FieldTag field) ''json'' = None \<Longrightarrow> outputName field = ''''"
  by (simp add: outputName_def Tag_Get_def)

lemma generateObjectDoc_Properties:
  assumes "generateObjectDoc ts goType = Some doc"
  shows "\<exists>properties. Map ts (unwrapPtr ts goType) ''$'' [] = Some properties \<and>
           Properties doc = map (withChildren properties) properties"
  using assms
  by (auto simp: generateObjectDoc_def Let_def addChildrenPaths_map unwrapPtr_def
      split: Option.bind_splits if_splits)

lemma withChildren_Path [simp]: "Path (withChildren properties n) = Path n"
  by (simp add: withChildren_def)

lemma withChildren_Children [simp]:
  "ChildrenPaths (withChildren properties n) = findPropertyChildrenPaths (Path n) properties"
  by (simp add: withChildren_def)

lemma child_listed:
  assumes "c \<in> set properties" "Path c = parent @ ''.'' @ rel" "CHR ''.'' \<notin> set rel"
  shows "Path c \<in> set (findPropertyChildrenPaths parent properties)"
  using assms by (auto simp: findPropertyChildrenPaths_set)

lemma element_not_listed:
  "parent @ ''[*]'' \<notin> set (findPropertyChildrenPaths parent properties)"
  by (auto simp: findPropertyChildrenPaths_set)

lemma Map_first_node:
  assumes "Map ts t path properties = Some result"
  shows "\<exists>n\<in>set result. Path n = path"
proof -
  from Map_walked [OF assms] obtain nodes where
    "result = properties @ nodes" "walked ts t path nodes" by blast
  with walked_paths [of ts t path nodes] show ?thesis by auto
qed

lemma Map_grows:
  assumes "Map ts t path properties = Some result"
  shows "set properties \<subseteq> set result"
  using Map_walked [OF assms] by auto

lemma Map_element_nodes:
  assumes "Map ts t path properties = Some result"
  shows "(Kind (ts (unwrapPtr ts t)) = KSlice \<longrightarrow> (\<exists>n\<in>set result. Path n = path @ ''[*]'')) \<and>
         (Kind (ts (unwrapPtr ts t)) = KMap \<longrightarrow>
            (\<exists>n\<in>set result. Path n = path @ ''.~'') \<and> (\<exists>n\<in>set result. Path n = path @ ''.*''))"
proof -
  from assms obtain doc where doc: "nodeAt ts t path = Some doc"
    by (subst (asm) Map_unfold) (auto simp: MapBody_def split: Option.bind_splits)
  have slice: "\<exists>n\<in>set result. Path n = path @ ''[*]''" if "Kind (ts (unwrapPtr ts t)) = KSlice"
  proof -
    from assms that doc have
      "Map ts (Elem (ts (unwrapPtr ts t))) (path @ ''[*]'') (properties @ [doc]) = Some result"
      by (subst (asm) Map_unfold) (simp add: MapBody_def)
    then show ?thesis by (rule Map_first_node)
  qed
  have map: "(\<exists>n\<in>set result. Path n = path @ ''.~'') \<and> (\<exists>n\<in>set result. Path n = path @ ''.*'')"
    if "Kind (ts (unwrapPtr ts t)) = KMap"
  proof -
    from assms that doc obtain mid where
      k: "Map ts (Key (ts (unwrapPtr ts t))) (path @ ''.~'') (properties @ [doc]) = Some mid"
      and v: "Map ts (Elem (ts (unwrapPtr ts t))) (path @ ''.*'') mid = Some result"
      by (subst (asm) Map_unfold) (auto simp: MapBody_def split: Option.bind_splits)
    from Map_first_node [OF k] Map_grows [OF v] Map_first_node [OF v]
    show ?thesis by blast
  qed
  from slice map show ?thesis by blast
qed

subsection \<open>Running the walker on the examples\<close>

lemma Map_Struct:
  "Kind (ts (unwrapPtr ts t)) = KStruct \<Longrightarrow>
   Map ts t path properties =
     Option.bind (nodeAt ts t path) (\<lambda>doc.
       forEach (\<lambda>field properties.
                    if walkedField field
                    then Map ts (FieldType field) (path @ ''.'' @ outputName field) properties
                    else Some properties)
         (VisibleFields (ts (unwrapPtr ts t))) (properties @ [doc]))"
  by (subst Map_unfold) (simp add: MapBody_def cong: Option.bind_cong)

lemma Map_Slice:
  "Kind (ts (unwrapPtr ts t)) = KSlice \<Longrightarrow>
   Map ts t path properties =
     Option.bind (nodeAt ts t path) (\<lambda>doc.
       Map ts (Elem (ts (unwrapPtr ts t))) (path @ ''[*]'') (properties @ [doc]))"
  by (subst Map_unfold) (simp add: MapBody_def cong: Option.bind_cong)

lemma Map_MapKind:
  "Kind (ts (unwrapPtr ts t)) = KMap \<Longrightarrow>
   Map ts t path properties =
     Option.bind (nodeAt ts t path) (\<lambda>doc.
       Option.bind (Map ts (Key (ts (unwrapPtr ts t))) (path @ ''.~'') (properties @ [doc]))
         (Map ts (Elem (ts (unwrapPtr ts t))) (path @ ''.*'')))"
  by (subst Map_unfold) (simp add: MapBody_def cong: Option.bind_cong)

lemma Map_Leaf:
  "Kind (ts (unwrapPtr ts t)) \<noteq> KStruct \<Longrightarrow> Kind (ts (unwrapPtr ts t)) \<noteq> KSlice \<Longrightarrow>
   Kind (ts (unwrapPtr ts t)) \<noteq> KMap \<Longrightarrow>
   Map ts t path properties =
     Option.bind (nodeAt ts t path) (\<lambda>doc. Some (properties @ [doc]))"
  by (subst Map_unfold) (simp add: MapBody_def cong: Option.bind_cong)

lemmas example_defs =
  basicType_def pointerTo_def sliceOf_def mapOf_def structType_def exportedField_def
  modelsPath_def

lemmas walk_eval =
  Map_Struct Map_Slice Map_MapKind Map_Leaf nodeAt_def setTypeInfo_def Get_def
  getKindString_leaf getKindString_Slice getKindString_Map unwrapPtr_def walkedField_def
  outputName_def Tag_Get_def Let_def emptyPropertyDoc_def

lemma accountTypes_simps:
  "accountTypes 0 = structType ''Account'' modelsPath ''models.Account''
          [exportedField ''Name'' 1 [(''json'', ''name'')],
           exportedField ''Secret'' 2 [(''json'', ''secret'')]]"
  "accountTypes (Suc 0) = basicType KString ''string''"
  "accountTypes 2 = structType ''Credentials'' modelsPath ''models.Credentials''
          [exportedField ''Token'' 1 [(''json'', ''token'')]]"
  by (simp_all add: accountTypes_def)

lemma teacherTypes_simps:
  "teacherTypes 0 = structType ''Teacher'' modelsPath ''models.Teacher''
          [exportedField ''Name'' 1 [(''json'', ''name'')],
           exportedField ''NoTag'' 2 []]"
  "teacherTypes (Suc 0) = basicType KString ''string''"
  "teacherTypes 2 = basicType KInt ''int''"
  by (simp_all add: teacherTypes_def)

lemma pairTypes_simps:
  "pairTypes 0 = structType ''Pair'' modelsPath ''models.Pair''
          [exportedField ''A'' 1 [(''json'', ''x'')],
           exportedField ''B'' 1 [(''json'', ''x'')]]"
  "pairTypes (Suc 0) = basicType KString ''string''"
  by (simp_all add: pairTypes_def)

lemma containerTypes_simps:
  "containerTypes 0 = structType ''Container'' modelsPath ''models.Container''
          [exportedField ''Items'' 1 [(''json'', ''items'')],
           exportedField ''Data'' 3 [(''json'', ''data'')]]"
  "containerTypes (Suc 0) = sliceOf 2 ''[]string''"
  "containerTypes 2 = basicType KString ''string''"
  "containerTypes 3 = mapOf 2 4 ''map[string]int''"
  "containerTypes 4 = basicType KInt ''int''"
  by (simp_all add: containerTypes_def)

lemma Map_accountTypes:
  "map_option (map Path) (Map accountTypes 0 ''$'' []) =
     Some [''$'', ''$.name'', ''$.secret'', ''$.secret.token'']"
  by (simp add: walk_eval accountTypes_simps example_defs)

lemma Map_containerTypes:
  "map_option (map Path) (Map containerTypes 0 ''$'' []) =
     Some [''$'', ''$.items'', ''$.items[*]'', ''$.data'', ''$.data.~'', ''$.data.*'']"
  by (simp add: walk_eval containerTypes_simps example_defs)

lemma rootSliceTypes_simps:
  "rootSliceTypes 0 = sliceOf 1 ''[]string''"
  "rootSliceTypes (Suc 0) = basicType KString ''string''"
  by (simp_all add: rootSliceTypes_def)

lemma embeddedTypes_simps:
  "embeddedTypes 0 =
     \<lparr>Kind = KStruct, Name = ''Obj'', PkgPath = modelsPath, TypeString = ''models.Obj'',
      Elem = 0, Key = 0,
      Fields = [exportedField ''Base'' 1 []],
      VisibleFields =
        [exportedField ''Base'' 1 [], exportedField ''ID'' 2 [(''json'', ''id'')]]\<rparr>"
  "embeddedTypes (Suc 0) = structType ''Base'' modelsPath ''models.Base''
          [exportedField ''ID'' 2 [(''json'', ''id'')]]"
  "embeddedTypes 2 = basicType KString ''string''"
  by (simp_all add: embeddedTypes_def)

lemma Map_rootSliceTypes:
  "map_option (map Path) (Map rootSliceTypes 0 ''$'' []) = Some [''$'', ''$[*]'']"
  by (simp add: walk_eval rootSliceTypes_simps example_defs)

lemma Map_embeddedTypes:
  "map_option (map Path) (Map embeddedTypes 0 ''$'' []) = Some [''$'', ''$.id'']"
  by (simp add: walk_eval embeddedTypes_simps example_defs)

lemma accountTypes_plainNames: "plainNames accountTypes"
  by (simp add: plainNames_def accountTypes_def example_defs walkedField_def outputName_def
      Tag_Get_def)

section \<open>Properties of the post-processing\<close>

subsection \<open>Trimming\<close>

lemma trimLeft_suffix: "suffix (trimLeft s) s"
proof (induction s rule: trimLeft.induct)
  case (1 s)
  show ?case
  proof (cases "find (\<lambda>r. prefix r s) unicodeSpaces")
    case None
    then show ?thesis by (subst trimLeft.simps) simp
  next
    case (Some r)
    from 1 [OF Some] have "suffix (trimLeft (drop (length r) s)) (drop (length r) s)" .
    also have "suffix (drop (length r) s) s" by (rule suffix_drop)
    finally show ?thesis using Some by (subst trimLeft.simps) simp
  qed
qed

lemma trimRight_prefix: "prefix (trimRight s) s"
proof (induction s rule: trimRight.induct)
  case (1 s)
  show ?case
  proof (cases "find (\<lambda>r. suffix r s) unicodeSpaces")
    case None
    then show ?thesis by (subst trimRight.simps) simp
  next
    case (Some r)
    from 1 [OF Some]
    have "prefix (trimRight (take (length s - length r) s)) (take (length s - length r) s)" .
    also have "prefix (take (length s - length r) s) s" by (rule take_is_prefix)
    finally show ?thesis using Some by (subst trimRight.simps) simp
  qed
qed

lemma strings_TrimSpace_sublist: "sublist (strings_TrimSpace s) s"
proof -
  have "sublist (trimRight (trimLeft s)) (trimLeft s)"
    using trimRight_prefix by (rule prefix_imp_sublist)
  moreover have "sublist (trimLeft s) s"
    using trimLeft_suffix by (rule suffix_imp_sublist)
  ultimately show ?thesis
    unfolding strings_TrimSpace_def by (rule sublist_order.order_trans)
qed

lemma trimLeft_fixed: "find (\<lambda>r. prefix r s) unicodeSpaces = None \<Longrightarrow> trimLeft s = s"
  by (subst trimLeft.simps) simp

lemma trimRight_fixed: "find (\<lambda>r. suffix r s) unicodeSpaces = None \<Longrightarrow> trimRight s = s"
  by (subst trimRight.simps) simp

lemma trimLeft_no_leading_space: "find (\<lambda>r. prefix r (trimLeft s)) unicodeSpaces = None"
proof (induction s rule: trimLeft.induct)
  case (1 s)
  show ?case
  proof (cases "find (\<lambda>r. prefix r s) unicodeSpaces")
    case None
    then show ?thesis by (subst trimLeft.simps) simp
  next
    case (Some r)
    from 1 [OF Some] Some show ?thesis by (subst trimLeft.simps) simp
  qed
qed

lemma trimRight_no_trailing_space: "find (\<lambda>r. suffix r (trimRight s)) unicodeSpaces = None"
proof (induction s rule: trimRight.induct)
  case (1 s)
  show ?case
  proof (cases "find (\<lambda>r. suffix r s) unicodeSpaces")
    case None
    then show ?thesis by (subst trimRight.simps) simp
  next
    case (Some r)
    from 1 [OF Some] Some show ?thesis by (subst trimRight.simps) simp
  qed
qed

lemma trimRight_keeps_no_leading_space:
  assumes "find (\<lambda>r. prefix r s) unicodeSpaces = None"
  shows "find (\<lambda>r. prefix r (trimRight s)) unicodeSpaces = None"
proof -
  have "\<not> prefix r (trimRight s)" if "r \<in> set unicodeSpaces" for r
  proof
    assume "prefix r (trimRight s)"
    then have "prefix r s" using trimRight_prefix by (rule prefix_order.order_trans)
    with assms that show False by (auto simp: find_None_iff)
  qed
  then show ?thesis by (auto simp: find_None_iff)
qed

lemma strings_TrimSpace_idem: "strings_TrimSpace (strings_TrimSpace s) = strings_TrimSpace s"
proof -
  have "trimLeft (trimRight (trimLeft s)) = trimRight (trimLeft s)"
    by (intro trimLeft_fixed trimRight_keeps_no_leading_space trimLeft_no_leading_space)
  moreover have "trimRight (trimRight (trimLeft s)) = trimRight (trimLeft s)"
    by (intro trimRight_fixed trimRight_no_trailing_space)
  ultimately show ?thesis by (simp add: strings_TrimSpace_def)
qed

subsection \<open>The enum marker\<close>

lemma enum_prefix: "prefix (enumDeclarationRegex_ReplaceAllString s) s"
  by (induction s) auto

lemma enum_removed: "\<not> sublist ''ENUM'' (enumDeclarationRegex_ReplaceAllString s)"
proof (induction s)
  case Nil
  show ?case by simp
next
  case (Cons c cs)
  show ?case
  proof (cases "prefix ''ENUM'' (c # cs)")
    case True
    then show ?thesis by simp
  next
    case False
    have "\<not> prefix ''ENUM'' (c # enumDeclarationRegex_ReplaceAllString cs)"
    proof
      assume "prefix ''ENUM'' (c # enumDeclarationRegex_ReplaceAllString cs)"
      moreover have "prefix (c # enumDeclarationRegex_ReplaceAllString cs) (c # cs)"
        using enum_prefix [of cs] by simp
      ultimately have "prefix ''ENUM'' (c # cs)" by (rule prefix_order.order_trans)
      with False show False ..
    qed
    with False Cons.IH show ?thesis
      by (simp add: sublist_Cons_right del: Cons_prefix_Cons)
  qed
qed

lemma enum_fixed: "\<not> sublist ''ENUM'' s \<Longrightarrow> enumDeclarationRegex_ReplaceAllString s = s"
proof (induction s)
  case Nil
  show ?case by simp
next
  case (Cons c cs)
  from Cons.prems have "\<not> prefix ''ENUM'' (c # cs)" "\<not> sublist ''ENUM'' cs"
    by (auto simp: sublist_Cons_right simp del: Cons_prefix_Cons)
  with Cons.IH show ?case by (simp del: Cons_prefix_Cons)
qed

subsection \<open>The deprecation marker\<close>

lemma deprecatedMatchAt_rest:
  assumes "deprecatedMatchAt s = Some (matched, submatch, rest)"
  shows "suffix rest s" and "rest = [] \<or> hd rest = CHR 0x0A"
proof -
  let ?line = "dropWhile isReSpace (drop (length ''Deprecated:'') s)"
  from assms have rest: "rest = dropWhile (\<lambda>c. c \<noteq> CHR 0x0A) ?line"
    by (auto simp: deprecatedMatchAt_def Let_def split: if_splits)
  have "suffix rest ?line" unfolding rest by (rule suffix_dropWhile)
  also have "suffix ?line (drop (length ''Deprecated:'') s)" by (rule suffix_dropWhile)
  also have "suffix (drop (length ''Deprecated:'') s) s" by (rule suffix_drop)
  finally show "suffix rest s" .
  show "rest = [] \<or> hd rest = CHR 0x0A"
    unfolding rest using hd_dropWhile [of "\<lambda>c. c \<noteq> CHR 0x0A" ?line] by auto
qed

lemma replaceAll_after_match:
  assumes "rest = [] \<or> hd rest = CHR 0x0A" and "prefix w (deprecatedRegex_ReplaceAllString False rest)"
    and "CHR 0x0A \<notin> set w"
  shows "w = []"
proof (cases rest)
  case Nil
  with assms(2) show ?thesis by simp
next
  case (Cons c cs)
  with assms(1) have "c = CHR 0x0A" by simp
  with Cons assms(2) have "prefix w (CHR 0x0A # deprecatedRegex_ReplaceAllString True cs)"
    by simp
  with assms(3) show ?thesis by (cases w) auto
qed

lemma replaceAll_prefix:
  "CHR 0x0A \<notin> set w \<Longrightarrow> prefix w (deprecatedRegex_ReplaceAllString bol s) \<Longrightarrow> prefix w s"
proof (induction bol s arbitrary: w rule: deprecatedRegex_ReplaceAllString.induct)
  case (1 bol)
  then show ?case by simp
next
  case (2 bol c cs)
  show ?case
  proof (cases "if bol then deprecatedMatchAt (c # cs) else None")
    case None
    with "2.prems"(2) have p: "prefix w (c # deprecatedRegex_ReplaceAllString (c = CHR 0x0A) cs)"
      by simp
    show ?thesis
    proof (cases w)
      case Nil
      then show ?thesis by simp
    next
      case (Cons d w')
      with p have "d = c" "prefix w' (deprecatedRegex_ReplaceAllString (c = CHR 0x0A) cs)"
        by simp_all
      moreover from Cons "2.prems"(1) have "CHR 0x0A \<notin> set w'" by simp
      ultimately show ?thesis
        using "2.IH"(1) [OF None] Cons by simp
    qed
  next
    case (Some m)
    obtain matched submatch rest where m: "m = (matched, submatch, rest)"
      by (cases m) auto
    with Some "2.prems"(2) have "prefix w (deprecatedRegex_ReplaceAllString False rest)"
      by simp
    moreover from Some m have "deprecatedMatchAt (c # cs) = Some (matched, submatch, rest)"
      by (simp split: if_splits)
    ultimately have "w = []"
      using deprecatedMatchAt_rest(2) "2.prems"(1) replaceAll_after_match by blast
    then show ?thesis by simp
  qed
qed

lemma replaceAll_sublist:
  "CHR 0x0A \<notin> set w \<Longrightarrow> sublist w (deprecatedRegex_ReplaceAllString bol s) \<Longrightarrow> sublist w s"
proof (induction bol s rule: deprecatedRegex_ReplaceAllString.induct)
  case (1 bol)
  then show ?case by simp
next
  case (2 bol c cs)
  show ?case
  proof (cases "if bol then deprecatedMatchAt (c # cs) else None")
    case None
    with "2.prems"(2) have
      "sublist w (c # deprecatedRegex_ReplaceAllString (c = CHR 0x0A) cs)"
      by simp
    then consider
      (here) "prefix w (c # deprecatedRegex_ReplaceAllString (c = CHR 0x0A) cs)"
      | (later) "sublist w (deprecatedRegex_ReplaceAllString (c = CHR 0x0A) cs)"
      by (auto simp: sublist_Cons_right)
    then show ?thesis
    proof cases
      case here
      with None have "prefix w (deprecatedRegex_ReplaceAllString bol (c # cs))" by simp
      with "2.prems"(1) have "prefix w (c # cs)" by (rule replaceAll_prefix)
      then show ?thesis by (rule prefix_imp_sublist)
    next
      case later
      with "2.IH"(1) [OF None "2.prems"(1)] show ?thesis
        by (simp add: sublist_Cons_right)
    qed
  next
    case (Some m)
    obtain matched submatch rest where m: "m = (matched, submatch, rest)"
      by (cases m) auto
    with Some "2.prems"(2) have "sublist w (deprecatedRegex_ReplaceAllString False rest)"
      by simp
    with "2.IH"(2) [OF Some m [symmetric] refl "2.prems"(1)]
    have "sublist w rest" by simp
    moreover from Some m have "suffix rest (c # cs)"
      using deprecatedMatchAt_rest(1) by (auto split: if_splits)
    ultimately show ?thesis
      using suffix_imp_sublist sublist_order.order_trans by blast
  qed
qed

subsection \<open>The processors of one property\<close>

lemma fold_generateFormatters:
  "fold (\<lambda>formatter property. formatter property) generateFormatters property = formatted property"
  by (simp add: generateFormatters_def formatted_def)

lemma extractDeprecatedInformation_Path [simp]:
  "Path (extractDeprecatedInformation property) = Path property"
  by (simp add: extractDeprecatedInformation_def Let_def)

lemma formatted_Path [simp]: "Path (formatted property) = Path property"
  by (simp add: formatted_def removeTrailingWhitespace_def removeEnumDeclaration_def)

lemma postProcessLoop_generate:
  "postProcessLoop excluded generateFormatters properties =
     map formatted (filter (\<lambda>property. Path property \<notin> set excluded) properties)"
  by (induction properties) (simp_all add: fold_generateFormatters)

lemma no_enum_TrimSpace: "\<not> sublist ''ENUM'' s \<Longrightarrow> \<not> sublist ''ENUM'' (strings_TrimSpace s)"
  using strings_TrimSpace_sublist sublist_order.order_trans by blast

lemma no_enum_ReplaceAll:
  "\<not> sublist ''ENUM'' s \<Longrightarrow> \<not> sublist ''ENUM'' (deprecatedRegex_ReplaceAllString bol s)"
  using replaceAll_sublist [of "''ENUM''" bol s] by auto

lemma extract_TypeDoc_no_enum:
  assumes "\<not> sublist ''ENUM'' (TypeDoc property)"
  shows "\<not> sublist ''ENUM'' (TypeDoc (extractDeprecatedInformation property))"
  using assms
  by (simp add: extractDeprecatedInformation_def Let_def no_enum_TrimSpace no_enum_ReplaceAll)

lemma formatted_no_enum: "\<not> sublist ''ENUM'' (TypeDoc (formatted property))"
proof -
  have "\<not> sublist ''ENUM'' (TypeDoc (removeEnumDeclaration property))"
    by (simp add: removeEnumDeclaration_def enum_removed)
  then have "\<not> sublist ''ENUM'' (TypeDoc (extractDeprecatedInformation (removeEnumDeclaration property)))"
    by (rule extract_TypeDoc_no_enum)
  then show ?thesis
    by (simp add: formatted_def removeTrailingWhitespace_def no_enum_TrimSpace)
qed

lemma formatted_trimmed:
  "strings_TrimSpace (TypeDoc (formatted property)) = TypeDoc (formatted property)"
  "strings_TrimSpace (FieldDoc (formatted property)) = FieldDoc (formatted property)"
  by (simp_all add: formatted_def removeTrailingWhitespace_def strings_TrimSpace_idem)

lemma formatted_fixed:
  assumes "\<not> deprecatedRegex_MatchString (TypeDoc q)" "\<not> deprecatedRegex_MatchString (FieldDoc q)"
    and "\<not> sublist ''ENUM'' (TypeDoc q)"
    and "strings_TrimSpace (TypeDoc q) = TypeDoc q" "strings_TrimSpace (FieldDoc q) = FieldDoc q"
  shows "formatted q = q"
proof -
  from assms(3) have "removeEnumDeclaration q = q"
    by (simp add: removeEnumDeclaration_def enum_fixed)
  moreover from assms(1,2) have "extractDeprecatedInformation q = q"
    by (simp add: extractDeprecatedInformation_def)
  moreover from assms(4,5) have "removeTrailingWhitespace q = q"
    by (simp add: removeTrailingWhitespace_def)
  ultimately show ?thesis by (simp add: formatted_def)
qed

subsection \<open>Exclusion\<close>

text \<open>
  C5, as stated, fails in its second half: with \<open>$.secret\<close> excluded, the document
  generated for \<open>Account\<close> keeps the node at \<open>$.secret.token\<close> below the excluded
  one.
\<close>

theorem postProcessProperties_descendants_counterexample:
  "map_option
     (\<lambda>doc. map Path (Properties (postProcessProperties [''$.secret''] doc generateFormatters)))
     (generateObjectDoc accountTypes 0) =
   Some [''$'', ''$.name'', ''$.secret.token'']"
proof -
  obtain properties where walk: "Map accountTypes 0 ''$'' [] = Some properties"
    and paths: "map Path properties = [''$'', ''$.name'', ''$.secret'', ''$.secret.token'']"
    using Map_accountTypes by (cases "Map accountTypes 0 ''$'' []") auto
  have "map Path (postProcessLoop [''$.secret''] generateFormatters (addChildrenPaths properties)) =
      filter (\<lambda>path. path \<notin> set [''$.secret'']) (map Path properties)"
    by (simp add: postProcessLoop_generate filter_map comp_def addChildrenPaths_map)
  with paths walk show ?thesis
    by (simp add: generateObjectDoc_def Let_def accountTypes_simps example_defs
        postProcessProperties_def)
qed

text \<open>
  C5, amended. With the processors that \<open>Generate\<close> passes, the paths of the
  post-processed document are the paths of the document that are not equal to a path of
  the exclusion list, in their order: the node at an excluded path is dropped, and every
  other node is kept, the nodes below an excluded path too.
\<close>

theorem postProcessProperties_excludes_by_equality:
  "map Path (Properties (postProcessProperties excluded doc generateFormatters)) =
     filter (\<lambda>path. path \<notin> set excluded) (map Path (Properties doc))"
  by (simp add: postProcessProperties_def postProcessLoop_generate filter_map comp_def)

subsection \<open>Post-processing twice\<close>

text \<open>
  C6, as stated, fails: for a property whose type doc and field doc each hold a
  \<open>Deprecated:\<close> line, the first pass extracts the note of the type doc and leaves the
  field doc as it is, and the second pass replaces the note by that of the field doc.
\<close>

theorem postProcessProperties_twice_counterexample:
  "postProcessProperties filterProperties
     (postProcessProperties filterProperties twiceDeprecated generateFormatters)
     generateFormatters \<noteq>
   postProcessProperties filterProperties twiceDeprecated generateFormatters"
  by code_simp

text \<open>
  C6, amended. With the processors that \<open>Generate\<close> passes, post-processing the
  post-processed document again changes nothing, whenever the first pass has left no
  line starting with \<open>Deprecated:\<close> in a type doc or a field doc.
\<close>

theorem postProcessProperties_idempotent:
  assumes "\<forall>property\<in>set (Properties (postProcessProperties excluded doc generateFormatters)).
             \<not> deprecatedRegex_MatchString (TypeDoc property) \<and>
             \<not> deprecatedRegex_MatchString (FieldDoc property)"
  shows "postProcessProperties excluded
           (postProcessProperties excluded doc generateFormatters) generateFormatters =
         postProcessProperties excluded doc generateFormatters"
proof -
  let ?kept = "filter (\<lambda>property. Path property \<notin> set excluded) (Properties doc)"
  have once: "Properties (postProcessProperties excluded doc generateFormatters) =
      map formatted ?kept"
    by (simp add: postProcessProperties_def postProcessLoop_generate)
  have fixed: "formatted (formatted property) = formatted property" if "property \<in> set ?kept"
    for property
  proof -
    from that assms once have
      "\<not> deprecatedRegex_MatchString (TypeDoc (formatted property))"
      "\<not> deprecatedRegex_MatchString (FieldDoc (formatted property))"
      by auto
    then show ?thesis
      by (intro formatted_fixed formatted_no_enum formatted_trimmed)
  qed
  have "filter (\<lambda>property. Path property \<notin> set excluded) (map formatted ?kept) =
      map formatted ?kept"
    by (simp add: filter_map comp_def)
  moreover have "map formatted (map formatted ?kept) = map formatted ?kept"
    using fixed by simp
  ultimately show ?thesis
    by (simp add: postProcessProperties_def postProcessLoop_generate)
qed

theorem postProcessProperties_idempotent_witness:
  "postProcessProperties filterProperties
     (postProcessProperties filterProperties onceDeprecated generateFormatters)
     generateFormatters =
   postProcessProperties filterProperties onceDeprecated generateFormatters"
proof -
  have "\<forall>property\<in>set (Properties
            (postProcessProperties filterProperties onceDeprecated generateFormatters)).
          \<not> deprecatedRegex_MatchString (TypeDoc property) \<and>
          \<not> deprecatedRegex_MatchString (FieldDoc property)"
    by code_simp
  then show ?thesis by (rule postProcessProperties_idempotent)
qed

subsection \<open>Segments, parents and declared names\<close>

lemma segment_parentPath:
  assumes "seg = ''[*]'' \<or> (\<exists>name. seg = ''.'' @ name \<and> CHR ''.'' \<notin> set name \<and> CHR ''['' \<notin> set name)"
  shows "parentPath (p @ seg) = p"
  using assms
proof
  assume "seg = ''[*]''"
  then show ?thesis by (simp add: parentPath_def suffix_def)
next
  assume "\<exists>name. seg = ''.'' @ name \<and> CHR ''.'' \<notin> set name \<and> CHR ''['' \<notin> set name"
  then obtain name where seg: "seg = ''.'' @ name" and name: "CHR ''.'' \<notin> set name" "CHR ''['' \<notin> set name"
    by blast
  have ns: "\<not> suffix ''[*]'' (p @ ''.'' @ name)"
  proof
    assume "suffix ''[*]'' (p @ ''.'' @ name)"
    then have "prefix (rev ''[*]'') (rev name @ ''.'' @ rev p)"
      by (simp add: suffix_to_prefix)
    then show False
      using name by (cases "rev name" rule: list.exhaust; cases "tl (rev name)"; cases "tl (tl (rev name))")
        (auto simp: prefix_Cons dest: arg_cong [where f = set])
  qed
  have "dropWhile (\<lambda>c. c \<noteq> CHR ''.'') (rev name @ CHR ''.'' # rev p) = CHR ''.'' # rev p"
    using name by (subst dropWhile_append2) auto
  with ns show ?thesis by (simp add: parentPath_def seg)
qed

lemma element_under:
  assumes "p @ ''[*]'' = q @ ''.'' @ rel" and "CHR ''.'' \<notin> set rel"
  shows "\<exists>r. rel = r @ ''[*]'' \<and> p = q @ ''.'' @ r"
proof -
  from assms(1) have "rev (p @ ''[*]'') = rev (q @ ''.'' @ rel)" by simp
  then have eq: "CHR '']'' # CHR ''*'' # CHR ''['' # rev p = rev rel @ CHR ''.'' # rev q" by simp
  obtain a b c rest where rel: "rev rel = a # b # c # rest"
    using eq by (cases "rev rel"; cases "tl (rev rel)"; cases "tl (tl (rev rel))") auto
  with eq have abc: "a = CHR '']''" "b = CHR ''*''" "c = CHR ''[''"
    and p: "rev p = rest @ CHR ''.'' # rev q"
    by auto
  from rel abc have "rev (rev rel) = rev (CHR '']'' # CHR ''*'' # CHR ''['' # rest)" by simp
  then have "rel = rev rest @ ''[*]''" by simp
  moreover from p have "rev (rev p) = rev (rest @ CHR ''.'' # rev q)" by simp
  then have "p = q @ ''.'' @ rev rest" by simp
  ultimately show ?thesis by blast
qed

lemma walked_dot_parent:
  "walked ts t path nodes \<Longrightarrow> dotlessNames ts \<Longrightarrow>
     \<forall>n\<in>set nodes. (\<exists>s. Path n = path @ s \<and> CHR ''.'' \<notin> set s) \<or>
        (\<exists>m\<in>set nodes. \<exists>r. Path n = Path m @ ''.'' @ r \<and> CHR ''.'' \<notin> set r)"
  and walkedFields_dot_parent:
  "walkedFields ts path fs nodes \<Longrightarrow> dotlessNames ts \<Longrightarrow>
     \<forall>n\<in>set nodes.
        (\<exists>field\<in>set fs. walkedField field \<and>
           (\<exists>s. Path n = path @ ''.'' @ outputName field @ s \<and> CHR ''.'' \<notin> set s)) \<or>
        (\<exists>m\<in>set nodes. \<exists>r. Path n = Path m @ ''.'' @ r \<and> CHR ''.'' \<notin> set r)"
proof (induction rule: walked_walkedFields.inducts)
  case (walked_Struct t path doc nodes)
  have doc: "Path doc = path" using walked_Struct(1) by (rule nodeAt_Path)
  show ?case
  proof
    fix n assume "n \<in> set (doc # nodes)"
    then consider "n = doc" | "n \<in> set nodes" by auto
    then show "(\<exists>s. Path n = path @ s \<and> CHR ''.'' \<notin> set s) \<or>
        (\<exists>m\<in>set (doc # nodes). \<exists>r. Path n = Path m @ ''.'' @ r \<and> CHR ''.'' \<notin> set r)"
    proof cases
      case 1
      with doc have "Path n = path @ []" by simp
      then show ?thesis by force
    next
      case 2
      with walked_Struct(4) [OF walked_Struct(5)] consider
        (top) field s where "field \<in> set (VisibleFields (ts (unwrapPtr ts t)))"
          "walkedField field" "Path n = path @ ''.'' @ outputName field @ s" "CHR ''.'' \<notin> set s"
        | (inner) m r where "m \<in> set nodes" "Path n = Path m @ ''.'' @ r" "CHR ''.'' \<notin> set r"
        by blast
      then show ?thesis
      proof cases
        case top
        from top(1,2) walked_Struct(5) have "CHR ''.'' \<notin> set (outputName field)"
          unfolding dotlessNames_def by blast
        with top(3,4) doc have "Path n = Path doc @ ''.'' @ (outputName field @ s)"
          "CHR ''.'' \<notin> set (outputName field @ s)" by simp_all
        then show ?thesis by (intro disjI2 bexI [of _ doc] exI [of _ "outputName field @ s"]) simp_all
      next
        case inner
        then show ?thesis by auto
      qed
    qed
  qed
next
  case (walked_Slice t path doc nodes)
  have doc: "Path doc = path" using walked_Slice(1) by (rule nodeAt_Path)
  show ?case
  proof
    fix n assume "n \<in> set (doc # nodes)"
    then consider "n = doc" | "n \<in> set nodes" by auto
    then show "(\<exists>s. Path n = path @ s \<and> CHR ''.'' \<notin> set s) \<or>
        (\<exists>m\<in>set (doc # nodes). \<exists>r. Path n = Path m @ ''.'' @ r \<and> CHR ''.'' \<notin> set r)"
    proof cases
      case 1
      with doc have "Path n = path @ []" by simp
      then show ?thesis by force
    next
      case 2
      with walked_Slice(4) [OF walked_Slice(5)] consider
        (top) s where "Path n = (path @ ''[*]'') @ s" "CHR ''.'' \<notin> set s"
        | (inner) m r where "m \<in> set nodes" "Path n = Path m @ ''.'' @ r" "CHR ''.'' \<notin> set r"
        by blast
      then show ?thesis
      proof cases
        case top
        then have "Path n = path @ (''[*]'' @ s)" "CHR ''.'' \<notin> set (''[*]'' @ s)" by simp_all
        then show ?thesis by blast
      next
        case inner
        then show ?thesis by auto
      qed
    qed
  qed
next
  case (walked_Map t path doc keyNodes valueNodes)
  have doc: "Path doc = path" using walked_Map(1) by (rule nodeAt_Path)
  show ?case
  proof
    fix n assume "n \<in> set (doc # keyNodes @ valueNodes)"
    then consider "n = doc" | "n \<in> set keyNodes" | "n \<in> set valueNodes" by auto
    then show "(\<exists>s. Path n = path @ s \<and> CHR ''.'' \<notin> set s) \<or>
        (\<exists>m\<in>set (doc # keyNodes @ valueNodes). \<exists>r.
           Path n = Path m @ ''.'' @ r \<and> CHR ''.'' \<notin> set r)"
    proof cases
      case 1
      with doc have "Path n = path @ []" by simp
      then show ?thesis by force
    next
      case 2
      with walked_Map(4) [OF walked_Map(7)] consider
        (top) s where "Path n = (path @ ''.~'') @ s" "CHR ''.'' \<notin> set s"
        | (inner) m r where "m \<in> set keyNodes" "Path n = Path m @ ''.'' @ r" "CHR ''.'' \<notin> set r"
        by blast
      then show ?thesis
      proof cases
        case top
        with doc have "Path n = Path doc @ ''.'' @ (''~'' @ s)" "CHR ''.'' \<notin> set (''~'' @ s)"
          by simp_all
        then show ?thesis by (intro disjI2 bexI [of _ doc] exI [of _ "''~'' @ s"]) simp_all
      next
        case inner
        then show ?thesis by auto
      qed
    next
      case 3
      with walked_Map(6) [OF walked_Map(7)] consider
        (top) s where "Path n = (path @ ''.*'') @ s" "CHR ''.'' \<notin> set s"
        | (inner) m r where "m \<in> set valueNodes" "Path n = Path m @ ''.'' @ r" "CHR ''.'' \<notin> set r"
        by blast
      then show ?thesis
      proof cases
        case top
        with doc have "Path n = Path doc @ ''.'' @ (''*'' @ s)" "CHR ''.'' \<notin> set (''*'' @ s)"
          by simp_all
        then show ?thesis by (intro disjI2 bexI [of _ doc] exI [of _ "''*'' @ s"]) simp_all
      next
        case inner
        then show ?thesis by auto
      qed
    qed
  qed
next
  case (walked_Leaf t path doc)
  then have "Path doc = path @ []" by (simp add: nodeAt_Path)
  then show ?case by force
next
  case (walkedFields_Nil path)
  then show ?case by simp
next
  case (walkedFields_Skip field path fs nodes)
  from walkedFields_Skip(3) [OF walkedFields_Skip(4)] show ?case by fastforce
next
  case (walkedFields_Walk field path fieldNodes fs nodes)
  show ?case
  proof
    fix n assume "n \<in> set (fieldNodes @ nodes)"
    then consider "n \<in> set fieldNodes" | "n \<in> set nodes" by auto
    then show "(\<exists>f\<in>set (field # fs). walkedField f \<and>
           (\<exists>s. Path n = path @ ''.'' @ outputName f @ s \<and> CHR ''.'' \<notin> set s)) \<or>
        (\<exists>m\<in>set (fieldNodes @ nodes). \<exists>r. Path n = Path m @ ''.'' @ r \<and> CHR ''.'' \<notin> set r)"
    proof cases
      case 1
      with walkedFields_Walk(3) [OF walkedFields_Walk(6)] consider
        (top) s where "Path n = (path @ ''.'' @ outputName field) @ s" "CHR ''.'' \<notin> set s"
        | (inner) m r where "m \<in> set fieldNodes" "Path n = Path m @ ''.'' @ r" "CHR ''.'' \<notin> set r"
        by blast
      then show ?thesis
      proof cases
        case top
        with walkedFields_Walk(1) show ?thesis by auto
      next
        case inner
        then show ?thesis by auto
      qed
    next
      case 2
      with walkedFields_Walk(5) [OF walkedFields_Walk(6)] show ?thesis by fastforce
    qed
  qed
qed

lemma declared_name_free:
  assumes n1: "atOrBelow (path @ ''.'' @ name) p" and n2: "atOrBelow (path @ ''.'' @ declared) p"
    and d: "CHR ''.'' \<notin> set declared" "CHR ''['' \<notin> set declared"
  shows "atOrBelow declared name"
proof -
  from n1 obtain r where r: "p = path @ ''.'' @ name @ r" "r = [] \<or> hd r = CHR ''.'' \<or> hd r = CHR ''[''"
    by (auto simp: atOrBelow_def)
  from n2 obtain s where s: "p = path @ ''.'' @ declared @ s" "s = [] \<or> hd s = CHR ''.'' \<or> hd s = CHR ''[''"
    by (auto simp: atOrBelow_def)
  from r(1) s(1) have eq: "name @ r = declared @ s" by simp
  then obtain u where "name = declared @ u \<and> u @ r = s \<or> name @ u = declared \<and> r = u @ s"
    unfolding append_eq_append_conv2 by blast
  then consider (longer) "name = declared @ u" "u @ r = s"
    | (same) "name = declared"
    | (shorter) "declared = name @ u" "u \<noteq> []" "r = u @ s"
    by (cases "u = []") auto
  then show ?thesis
  proof cases
    case longer
    show ?thesis
    proof (cases u)
      case Nil
      with longer show ?thesis by (simp add: atOrBelow_def)
    next
      case (Cons c u')
      with longer s(2) have "hd u = CHR ''.'' \<or> hd u = CHR ''[''" by auto
      with longer(1) Cons show ?thesis by (auto simp: atOrBelow_def)
    qed
  next
    case same
    then show ?thesis by (simp add: atOrBelow_def)
  next
    case shorter
    then have "hd r = hd u" "hd u \<in> set declared" "r \<noteq> []" by (cases u; simp)+
    with r(2) d have False by metis
    then show ?thesis ..
  qed
qed

lemma plain_segment:
  assumes "plainNames ts" "pathSegment ts seg"
  shows "seg = ''[*]'' \<or>
         (\<exists>name. seg = ''.'' @ name \<and> CHR ''.'' \<notin> set name \<and> CHR ''['' \<notin> set name)"
proof -
  from assms(2) consider "seg = ''[*]''" | "seg = ''.'' @ ''~''" | "seg = ''.'' @ ''*''"
    | t field where "field \<in> set (VisibleFields (ts t))" "seg = ''.'' @ outputName field"
    unfolding pathSegment_def by auto
  then show ?thesis
  proof cases
    case 1
    then show ?thesis by simp
  next
    case 2
    then show ?thesis by (intro disjI2 exI [of _ "''~''"]) simp
  next
    case 3
    then show ?thesis by (intro disjI2 exI [of _ "''*''"]) simp
  next
    case 4
    with assms(1) have "CHR ''.'' \<notin> set (outputName field)" "CHR ''['' \<notin> set (outputName field)"
      unfolding plainNames_def by blast+
    with 4(2) show ?thesis by blast
  qed
qed

lemma pathSegment_nonempty: "pathSegment ts seg \<Longrightarrow> seg \<noteq> []"
  by (auto simp: pathSegment_def)

lemma Map_struct_nodes:
  assumes walk: "Map ts typ path properties = Some result"
    and struct: "Kind (ts (unwrapPtr ts typ)) = KStruct"
  shows "\<exists>doc nodes. result = properties @ doc # nodes \<and> nodeAt ts typ path = Some doc \<and>
           walkedFields ts path (VisibleFields (ts (unwrapPtr ts typ))) nodes"
proof -
  from Map_walked [OF walk] obtain all_nodes where
    r: "result = properties @ all_nodes" and w: "walked ts typ path all_nodes" by blast
  from w struct obtain doc nodes where "all_nodes = doc # nodes" "nodeAt ts typ path = Some doc"
    "walkedFields ts path (VisibleFields (ts (unwrapPtr ts typ))) nodes"
    by (cases rule: walked.cases) auto
  with r show ?thesis by blast
qed

lemma listed_iff:
  assumes e: "e \<in> set properties" and pe: "Path e = p @ ''[*]''"
  shows "Path e \<in> set (findPropertyChildrenPaths q properties) \<longleftrightarrow>
           (\<exists>r. p = q @ ''.'' @ r \<and> CHR ''.'' \<notin> set r)"
proof
  assume "Path e \<in> set (findPropertyChildrenPaths q properties)"
  then obtain rel where rel: "Path e = q @ ''.'' @ rel" "CHR ''.'' \<notin> set rel"
    by (auto simp: findPropertyChildrenPaths_set)
  with pe have "p @ ''[*]'' = q @ ''.'' @ rel" by simp
  from element_under [OF this rel(2)] obtain r where "rel = r @ ''[*]''" "p = q @ ''.'' @ r"
    by blast
  with rel(2) show "\<exists>r. p = q @ ''.'' @ r \<and> CHR ''.'' \<notin> set r" by auto
next
  assume "\<exists>r. p = q @ ''.'' @ r \<and> CHR ''.'' \<notin> set r"
  then obtain r where r: "p = q @ ''.'' @ r" "CHR ''.'' \<notin> set r" by blast
  with pe have "Path e = q @ ''.'' @ (r @ ''[*]'')" "CHR ''.'' \<notin> set (r @ ''[*]'')"
    by simp_all
  with e show "Path e \<in> set (findPropertyChildrenPaths q properties)"
    by (intro child_listed)
qed

lemma dot_parent_exists:
  assumes w: "walked ts t ''$'' properties" and names: "dotlessNames ts"
    and n: "n \<in> set properties" and dot: "CHR ''.'' \<in> set (Path n)"
  shows "\<exists>m\<in>set properties. \<exists>r. Path n = Path m @ ''.'' @ r \<and> CHR ''.'' \<notin> set r"
proof -
  from walked_dot_parent [OF w names] n consider
    (top) s where "Path n = ''$'' @ s" "CHR ''.'' \<notin> set s"
    | (inner) m r where "m \<in> set properties" "Path n = Path m @ ''.'' @ r" "CHR ''.'' \<notin> set r"
    by blast
  then show ?thesis
  proof cases
    case top
    with dot show ?thesis by simp
  next
    case inner
    then show ?thesis by blast
  qed
qed

subsection \<open>Members without annotation\<close>

text \<open>
  C4, as stated, fails: for \<open>Teacher\<close>, whose member \<open>NoTag\<close> carries no annotation, the
  walker appends the nodes at \<open>$\<close> and \<open>$.name\<close> and none at \<open>$.NoTag\<close>.
\<close>

theorem Map_untagged_member_counterexample:
  "map_option (map Path) (Map teacherTypes 0 ''$'' []) = Some [''$'', ''$.name'']"
  by (simp add: walk_eval teacherTypes_simps example_defs)

text \<open>
  C4, amended. The walker takes the output name of a member from its \<open>json\<close> annotation
  alone (the text before the first comma) and skips the member when that name is empty or
  \<open>-\<close>; a member without \<open>json\<close> annotation has the empty output name, and its declared
  name is not used. For every walk of a struct that returns: the nodes appended are the
  node of the struct and then the walks of the visible members that are not skipped, in
  order, so every node after the first lies at or below the path of the struct, a dot and
  the output name of such a member. For a visible member without annotation whose
  declared name holds no dot and no opening bracket, no node lies at or below the path of
  the struct, a dot and the declared name, unless the output name of another member of
  the struct is the declared name or goes on from it with a dot or a bracket. The visible
  members include the members promoted from an embedded struct: for
  \<open>Obj\<close>, which embeds \<open>Base\<close> without annotation, the walker appends no node at
  \<open>$.Base\<close>, and the node at \<open>$.id\<close> for the promoted member \<open>ID\<close> of \<open>Base\<close>.
\<close>

theorem Map_skips_untagged_members:
  assumes walk: "Map ts typ path properties = Some result"
    and struct: "Kind (ts (unwrapPtr ts typ)) = KStruct"
  shows "\<exists>doc nodes.
           result = properties @ doc # nodes \<and> Path doc = path \<and>
           forEach (\<lambda>field. Map ts (FieldType field) (path @ ''.'' @ outputName field))
             (filter walkedField (VisibleFields (ts (unwrapPtr ts typ))))
             (properties @ [doc]) = Some result \<and>
           (\<forall>n\<in>set nodes. \<exists>other\<in>set (VisibleFields (ts (unwrapPtr ts typ))).
              walkedField other \<and> atOrBelow (path @ ''.'' @ outputName other) (Path n)) \<and>
           (\<forall>field\<in>set (VisibleFields (ts (unwrapPtr ts typ))).
              map_of (FieldTag field) ''json'' = None \<longrightarrow>
                \<not> walkedField field \<and>
                (CHR ''.'' \<notin> set (FieldName field) \<and> CHR ''['' \<notin> set (FieldName field) \<and>
                 (\<forall>other\<in>set (VisibleFields (ts (unwrapPtr ts typ))).
                    walkedField other \<longrightarrow> \<not> atOrBelow (FieldName field) (outputName other)) \<longrightarrow>
                 (\<forall>n\<in>set (doc # nodes).
                    \<not> atOrBelow (path @ ''.'' @ FieldName field) (Path n))))"
proof -
  let ?fields = "VisibleFields (ts (unwrapPtr ts typ))"
  from Map_struct_nodes [OF walk struct] obtain doc nodes where
    r: "result = properties @ doc # nodes" and doc: "nodeAt ts typ path = Some doc"
    and w: "walkedFields ts path ?fields nodes" by blast
  have pd: "Path doc = path" using doc by (rule nodeAt_Path)
  have loop: "forEach (\<lambda>field. Map ts (FieldType field) (path @ ''.'' @ outputName field))
      (filter walkedField ?fields) (properties @ [doc]) = Some result"
    using walk struct doc
    by (subst (asm) Map_unfold) (simp add: MapBody_def forEach_filter)
  have under: "\<exists>other\<in>set ?fields. walkedField other \<and>
      atOrBelow (path @ ''.'' @ outputName other) (Path n)" if "n \<in> set nodes" for n
    using walkedFields_atOrBelow [OF w that] .
  have untagged: "\<not> walkedField field \<and>
      (CHR ''.'' \<notin> set (FieldName field) \<and> CHR ''['' \<notin> set (FieldName field) \<and>
       (\<forall>other\<in>set ?fields. walkedField other \<longrightarrow>
          \<not> atOrBelow (FieldName field) (outputName other)) \<longrightarrow>
       (\<forall>n\<in>set (doc # nodes). \<not> atOrBelow (path @ ''.'' @ FieldName field) (Path n)))"
    if "map_of (FieldTag field) ''json'' = None" for field
  proof (intro conjI impI ballI)
    from that show "\<not> walkedField field"
      by (simp add: walkedField_def untagged_outputName)
  next
    fix n
    assume free: "CHR ''.'' \<notin> set (FieldName field) \<and> CHR ''['' \<notin> set (FieldName field) \<and>
        (\<forall>other\<in>set ?fields. walkedField other \<longrightarrow>
           \<not> atOrBelow (FieldName field) (outputName other))"
      and n: "n \<in> set (doc # nodes)"
    show "\<not> atOrBelow (path @ ''.'' @ FieldName field) (Path n)"
    proof
      assume at: "atOrBelow (path @ ''.'' @ FieldName field) (Path n)"
      from n consider "n = doc" | "n \<in> set nodes" by auto
      then show False
      proof cases
        case 1
        with pd at show False by (auto dest: atOrBelow_neq)
      next
        case 2
        from under [OF 2] obtain other where other: "other \<in> set ?fields" "walkedField other"
          "atOrBelow (path @ ''.'' @ outputName other) (Path n)" by blast
        from declared_name_free [OF other(3) at] free
        have "atOrBelow (FieldName field) (outputName other)" by blast
        with free other(1,2) show False by blast
      qed
    qed
  qed
  have a: "\<forall>n\<in>set nodes. \<exists>other\<in>set ?fields. walkedField other \<and>
      atOrBelow (path @ ''.'' @ outputName other) (Path n)"
    using under by (intro ballI)
  have b: "\<forall>field\<in>set ?fields. map_of (FieldTag field) ''json'' = None \<longrightarrow>
      \<not> walkedField field \<and>
      (CHR ''.'' \<notin> set (FieldName field) \<and> CHR ''['' \<notin> set (FieldName field) \<and>
       (\<forall>other\<in>set ?fields. walkedField other \<longrightarrow>
          \<not> atOrBelow (FieldName field) (outputName other)) \<longrightarrow>
       (\<forall>n\<in>set (doc # nodes). \<not> atOrBelow (path @ ''.'' @ FieldName field) (Path n)))"
    using untagged by (intro ballI impI)
  from r pd loop a b show ?thesis
    by (intro exI [of _ doc] exI [of _ nodes] conjI)
qed

theorem Map_skips_untagged_members_witness:
  "\<exists>result. Map embeddedTypes 0 ''$'' [] = Some result \<and>
     map Path result = [''$'', ''$.id''] \<and>
     list_all (\<lambda>n. \<not> atOrBelow ''$.Base'' (Path n)) result"
proof -
  obtain result where walk: "Map embeddedTypes 0 ''$'' [] = Some result"
    and paths: "map Path result = [''$'', ''$.id'']"
    using Map_embeddedTypes by (cases "Map embeddedTypes 0 ''$'' []") auto
  have struct: "Kind (embeddedTypes (unwrapPtr embeddedTypes 0)) = KStruct"
    by (simp add: unwrapPtr_def embeddedTypes_simps)
  have fields: "VisibleFields (embeddedTypes (unwrapPtr embeddedTypes 0)) =
      [exportedField ''Base'' 1 [], exportedField ''ID'' 2 [(''json'', ''id'')]]"
    by (simp add: unwrapPtr_def embeddedTypes_simps)
  have free: "\<forall>other\<in>set (VisibleFields (embeddedTypes (unwrapPtr embeddedTypes 0))).
      walkedField other \<longrightarrow> \<not> atOrBelow ''Base'' (outputName other)"
    unfolding fields
    by (simp add: walkedField_def outputName_def Tag_Get_def exportedField_def atOrBelow_def)
  let ?base = "exportedField ''Base'' 1 []"
  from Map_skips_untagged_members [OF walk struct] obtain doc nodes where
    c: "result = [] @ doc # nodes \<and> Path doc = ''$'' \<and>
     forEach (\<lambda>field. Map embeddedTypes (FieldType field) (''$'' @ ''.'' @ outputName field))
       (filter walkedField (VisibleFields (embeddedTypes (unwrapPtr embeddedTypes 0))))
       ([] @ [doc]) = Some result \<and>
     (\<forall>n\<in>set nodes. \<exists>other\<in>set (VisibleFields (embeddedTypes (unwrapPtr embeddedTypes 0))).
        walkedField other \<and> atOrBelow (''$'' @ ''.'' @ outputName other) (Path n)) \<and>
     (\<forall>field\<in>set (VisibleFields (embeddedTypes (unwrapPtr embeddedTypes 0))).
              map_of (FieldTag field) ''json'' = None \<longrightarrow>
                \<not> walkedField field \<and>
                (CHR ''.'' \<notin> set (FieldName field) \<and> CHR ''['' \<notin> set (FieldName field) \<and>
                 (\<forall>other\<in>set (VisibleFields (embeddedTypes (unwrapPtr embeddedTypes 0))).
                    walkedField other \<longrightarrow> \<not> atOrBelow (FieldName field) (outputName other)) \<longrightarrow>
                 (\<forall>n\<in>set (doc # nodes).
                    \<not> atOrBelow (''$'' @ ''.'' @ FieldName field) (Path n))))"
    by (elim exE) (rule that)
  note r = c [THEN conjunct1]
    and skip = c [THEN conjunct2, THEN conjunct2, THEN conjunct2, THEN conjunct2]
  have member: "?base \<in> set (VisibleFields (embeddedTypes (unwrapPtr embeddedTypes 0)))"
    unfolding fields by simp
  have untagged: "map_of (FieldTag ?base) ''json'' = None"
    by (simp add: exportedField_def)
  have name: "FieldName ?base = ''Base''"
    by (simp add: exportedField_def)
  have pre: "CHR ''.'' \<notin> set (FieldName ?base) \<and> CHR ''['' \<notin> set (FieldName ?base) \<and>
      (\<forall>other\<in>set (VisibleFields (embeddedTypes (unwrapPtr embeddedTypes 0))).
         walkedField other \<longrightarrow> \<not> atOrBelow (FieldName ?base) (outputName other))"
    unfolding name using free by simp
  note none = mp [OF mp [OF bspec [OF skip member] untagged, THEN conjunct2] pre]
  have "\<forall>n\<in>set (doc # nodes). \<not> atOrBelow ''$.Base'' (Path n)"
    using none unfolding name by simp
  with r have "list_all (\<lambda>n. \<not> atOrBelow ''$.Base'' (Path n)) result"
    by (simp add: list_all_iff)
  with walk paths show ?thesis by (intro exI [of _ result] conjI)
qed

subsection \<open>The paths of a generated document\<close>

text \<open>
  C7, as stated, fails: two members of \<open>Pair\<close> carry the output name \<open>x\<close>, and the
  generated document holds two nodes with the path \<open>$.x\<close>.
\<close>

theorem generateObjectDoc_paths_counterexample:
  "map_option (\<lambda>doc. map Path (Properties doc)) (generateObjectDoc pairTypes 0) =
     Some [''$'', ''$.x'', ''$.x'']"
proof -
  have "map_option (map Path) (Map pairTypes 0 ''$'' []) = Some [''$'', ''$.x'', ''$.x'']"
    by (simp add: walk_eval pairTypes_simps example_defs)
  then show ?thesis
    by (auto simp: generateObjectDoc_def Let_def addChildrenPaths_map pairTypes_simps
        example_defs comp_def split: Option.bind_splits)
qed

text \<open>
  C7, amended. In every generated document the first node has the path \<open>$\<close>, and the path
  of every other node is the path of a node of the document and one segment the walker
  appends: \<open>[*]\<close>, \<open>.~\<close>, \<open>.*\<close>, or a dot and the output name of a walked member of a
  struct. When, in every struct, the walked members have different output names and no
  output name holds a dot or an opening bracket, the paths are pairwise distinct, and
  for every node but the first the path without its last segment (without the \<open>[*]\<close> it
  ends with, or else without its last dot and what follows) is the path of another node
  of the document. Two members with one output name give two nodes with one path.
\<close>

theorem generateObjectDoc_paths:
  assumes gen: "generateObjectDoc ts goType = Some doc"
  shows "(\<exists>root rest. Properties doc = root # rest \<and> Path root = ''$'' \<and>
            (\<forall>n\<in>set rest. \<exists>m\<in>set (Properties doc). \<exists>seg.
               pathSegment ts seg \<and> Path n = Path m @ seg)) \<and>
         (plainNames ts \<longrightarrow>
            distinct (map Path (Properties doc)) \<and>
            (\<forall>n\<in>set (tl (Properties doc)). \<exists>m\<in>set (Properties doc).
               Path m = parentPath (Path n) \<and> Path m \<noteq> Path n))"
proof -
  from generateObjectDoc_Properties [OF gen] obtain properties where
    walk: "Map ts (unwrapPtr ts goType) ''$'' [] = Some properties"
    and props: "Properties doc = map (withChildren properties) properties" by blast
  from Map_walked [OF walk] have w: "walked ts (unwrapPtr ts goType) ''$'' properties"
    by simp
  from walked_paths [OF w] obtain root rest where
    root: "properties = root # rest" "Path root = ''$''" by blast
  have paths: "map Path (Properties doc) = map Path properties"
    by (simp add: props comp_def)
  have parents: "\<exists>m\<in>set (Properties doc). \<exists>seg. pathSegment ts seg \<and> Path n = Path m @ seg"
    if "n \<in> set (map (withChildren properties) rest)" for n
  proof -
    from that obtain n0 where n0: "n0 \<in> set rest" "n = withChildren properties n0" by auto
    with root have "n0 \<in> set (tl properties)" by simp
    with walked_parents [OF w] obtain m0 seg where
      m0: "m0 \<in> set properties" "pathSegment ts seg" "Path n0 = Path m0 @ seg" by blast
    then have "withChildren properties m0 \<in> set (Properties doc)"
      by (simp add: props)
    with m0 n0 show ?thesis
      by (intro bexI [of _ "withChildren properties m0"] exI [of _ seg]) simp_all
  qed
  have tail: "tl (Properties doc) = map (withChildren properties) rest"
    by (simp add: props root)
  have first: "\<exists>root rest. Properties doc = root # rest \<and> Path root = ''$'' \<and>
            (\<forall>n\<in>set rest. \<exists>m\<in>set (Properties doc). \<exists>seg.
               pathSegment ts seg \<and> Path n = Path m @ seg)"
    using root parents
    by (intro exI [of _ "withChildren properties root"]
        exI [of _ "map (withChildren properties) rest"]) (simp add: props)
  have plain: "distinct (map Path (Properties doc)) \<and>
      (\<forall>n\<in>set (tl (Properties doc)). \<exists>m\<in>set (Properties doc).
         Path m = parentPath (Path n) \<and> Path m \<noteq> Path n)" if names: "plainNames ts"
  proof
    show "distinct (map Path (Properties doc))"
      using walked_distinct(1) [OF names w] paths by simp
    show "\<forall>n\<in>set (tl (Properties doc)). \<exists>m\<in>set (Properties doc).
         Path m = parentPath (Path n) \<and> Path m \<noteq> Path n"
    proof
      fix n assume "n \<in> set (tl (Properties doc))"
      with tail have "n \<in> set (map (withChildren properties) rest)" by simp
      from parents [OF this] obtain m seg where
        m: "m \<in> set (Properties doc)" "pathSegment ts seg" "Path n = Path m @ seg" by blast
      from plain_segment [OF names m(2)] have "parentPath (Path m @ seg) = Path m"
        by (rule segment_parentPath)
      moreover from m(2) have "seg \<noteq> []" by (rule pathSegment_nonempty)
      ultimately have "Path m = parentPath (Path n) \<and> Path m \<noteq> Path n"
        using m(3) by simp
      with m(1) show "\<exists>m\<in>set (Properties doc). Path m = parentPath (Path n) \<and> Path m \<noteq> Path n"
        by (rule bexI [rotated])
    qed
  qed
  from first plain show ?thesis by blast
qed

theorem generateObjectDoc_paths_witness:
  "\<exists>doc. generateObjectDoc accountTypes 0 = Some doc \<and>
     map Path (Properties doc) = [''$'', ''$.name'', ''$.secret'', ''$.secret.token''] \<and>
     map (\<lambda>n. parentPath (Path n)) (tl (Properties doc)) = [''$'', ''$'', ''$.secret''] \<and>
     distinct (map Path (Properties doc)) \<and>
     list_all (\<lambda>n. parentPath (Path n) \<in> Path ` set (Properties doc)) (tl (Properties doc))"
proof -
  obtain properties where walk: "Map accountTypes 0 ''$'' [] = Some properties"
    and paths: "map Path properties = [''$'', ''$.name'', ''$.secret'', ''$.secret.token'']"
    using Map_accountTypes by (cases "Map accountTypes 0 ''$'' []") auto
  define doc where "doc = \<lparr>ObjectName = '''', Properties = addChildrenPaths properties,
              Examples = [], ObjectDocText = ''''\<rparr>"
  have gen: "generateObjectDoc accountTypes 0 = Some doc"
    using walk by (simp add: generateObjectDoc_def Let_def doc_def accountTypes_simps example_defs)
  have p: "map Path (Properties doc) = [''$'', ''$.name'', ''$.secret'', ''$.secret.token'']"
    using paths by (simp add: doc_def addChildrenPaths_map comp_def)
  then have "map Path (tl (Properties doc)) = [''$.name'', ''$.secret'', ''$.secret.token'']"
    by (simp add: map_tl)
  then have "map parentPath (map Path (tl (Properties doc))) = [''$'', ''$'', ''$.secret'']"
    by (simp add: parentPath_def suffix_to_prefix)
  then have pp: "map (\<lambda>n. parentPath (Path n)) (tl (Properties doc)) = [''$'', ''$'', ''$.secret'']"
    by (simp add: comp_def)
  note both = mp [OF generateObjectDoc_paths [OF gen, THEN conjunct2] accountTypes_plainNames]
  from both have d: "distinct (map Path (Properties doc))" by (rule conjunct1)
  from both have "\<forall>n\<in>set (tl (Properties doc)). \<exists>m\<in>set (Properties doc).
               Path m = parentPath (Path n) \<and> Path m \<noteq> Path n" by (rule conjunct2)
  then have "list_all (\<lambda>n. parentPath (Path n) \<in> Path ` set (Properties doc)) (tl (Properties doc))"
    unfolding list_all_iff by force
  with gen p pp d show ?thesis by (intro exI [of _ doc] conjI)
qed

subsection \<open>The children of sequence and mapping nodes\<close>

text \<open>
  C10, as stated, fails: for the root type \<open>[]string\<close> the generated document holds the
  sequence node at \<open>$\<close> and its element node at \<open>$[*]\<close>, and the path \<open>$[*]\<close> is among the
  children paths of no node.
\<close>

theorem generateObjectDoc_root_sequence_counterexample:
  "map_option (\<lambda>doc. map (\<lambda>n. (Path n, ChildrenPaths n)) (Properties doc))
     (generateObjectDoc rootSliceTypes 0) =
   Some [(''$'', []), (''$[*]'', [])]"
proof -
  obtain properties where walk: "Map rootSliceTypes 0 ''$'' [] = Some properties"
    and paths: "map Path properties = [''$'', ''$[*]'']"
    using Map_rootSliceTypes by (cases "Map rootSliceTypes 0 ''$'' []") auto
  from paths obtain n0 n1 where
    ns: "properties = [n0, n1]" "Path n0 = ''$''" "Path n1 = ''$[*]''"
    by (auto simp: map_eq_Cons_conv)
  from walk show ?thesis
    by (simp add: generateObjectDoc_def Let_def rootSliceTypes_simps example_defs
        addChildrenPaths_map ns strings_CutPrefix_def)
qed

text \<open>
  C10, amended. The element node of a sequence node is the node whose path is the path of
  the sequence node with \<open>[*]\<close>; the key and value nodes of a mapping node are those whose
  paths are its path with \<open>.~\<close> and \<open>.*\<close>. In every generated document the path of an
  element node is not among the children paths of its sequence node; it is among the
  children paths of a node exactly when the path of the sequence node is the path of that
  node, a dot and a text without dot. So the element node of a sequence node whose path
  holds no dot (the root, or an element of sequences at the root) is listed by no node;
  and when no output name holds a dot, the element node of a sequence node whose path
  holds a dot is listed by the node whose path is the path of the sequence node without
  its last dot and what follows, which is a node of the document. The paths of key and
  value nodes are among the children paths of their mapping node. Such nodes exist: every
  call of the walker that returns, for a type of kind slice, has appended the element
  node, and for a type of kind map the key and the value node.
\<close>

theorem children_of_sequences_and_mappings:
  assumes gen: "generateObjectDoc ts goType = Some doc"
  shows "(\<forall>n\<in>set (Properties doc). \<forall>e\<in>set (Properties doc).
            Path e = Path n @ ''[*]'' \<longrightarrow>
              Path e \<notin> set (ChildrenPaths n) \<and>
              (\<forall>m\<in>set (Properties doc).
                 Path e \<in> set (ChildrenPaths m) \<longleftrightarrow>
                   (\<exists>r. Path n = Path m @ ''.'' @ r \<and> CHR ''.'' \<notin> set r)) \<and>
              (CHR ''.'' \<notin> set (Path n) \<longrightarrow>
                 (\<forall>m\<in>set (Properties doc). Path e \<notin> set (ChildrenPaths m))) \<and>
              (dotlessNames ts \<and> CHR ''.'' \<in> set (Path n) \<longrightarrow>
                 (\<exists>m\<in>set (Properties doc).
                    (\<exists>r. Path n = Path m @ ''.'' @ r \<and> CHR ''.'' \<notin> set r) \<and>
                    Path e \<in> set (ChildrenPaths m)))) \<and>
         (\<forall>n\<in>set (Properties doc). \<forall>c\<in>set (Properties doc).
            Path c = Path n @ ''.~'' \<or> Path c = Path n @ ''.*'' \<longrightarrow>
              Path c \<in> set (ChildrenPaths n)) \<and>
         (\<forall>t path properties result.
            Map ts t path properties = Some result \<longrightarrow>
              (Kind (ts (unwrapPtr ts t)) = KSlice \<longrightarrow>
                 (\<exists>n\<in>set result. Path n = path @ ''[*]'')) \<and>
              (Kind (ts (unwrapPtr ts t)) = KMap \<longrightarrow>
                 (\<exists>n\<in>set result. Path n = path @ ''.~'') \<and>
                 (\<exists>n\<in>set result. Path n = path @ ''.*'')))"
proof -
  from generateObjectDoc_Properties [OF gen] obtain properties where
    walk: "Map ts (unwrapPtr ts goType) ''$'' [] = Some properties"
    and props: "Properties doc = map (withChildren properties) properties" by blast
  from Map_walked [OF walk] have w: "walked ts (unwrapPtr ts goType) ''$'' properties"
    by simp
  have listed: "Path e \<in> set (ChildrenPaths m) \<longleftrightarrow>
      (\<exists>r. Path n = Path m @ ''.'' @ r \<and> CHR ''.'' \<notin> set r)"
    if e: "e \<in> set (Properties doc)" and m: "m \<in> set (Properties doc)"
      and pe: "Path e = Path n @ ''[*]''" for n e m
  proof -
    from e props obtain e0 where e0: "e0 \<in> set properties" "e = withChildren properties e0"
      by auto
    from m props obtain m0 where m0: "m0 \<in> set properties" "m = withChildren properties m0"
      by auto
    from pe e0 have "Path e0 = Path n @ ''[*]''" by simp
    from listed_iff [OF e0(1) this, of "Path m0"] e0 m0 show ?thesis by simp
  qed
  have elem: "Path e \<notin> set (ChildrenPaths n) \<and>
              (\<forall>m\<in>set (Properties doc).
                 Path e \<in> set (ChildrenPaths m) \<longleftrightarrow>
                   (\<exists>r. Path n = Path m @ ''.'' @ r \<and> CHR ''.'' \<notin> set r)) \<and>
              (CHR ''.'' \<notin> set (Path n) \<longrightarrow>
                 (\<forall>m\<in>set (Properties doc). Path e \<notin> set (ChildrenPaths m))) \<and>
              (dotlessNames ts \<and> CHR ''.'' \<in> set (Path n) \<longrightarrow>
                 (\<exists>m\<in>set (Properties doc).
                    (\<exists>r. Path n = Path m @ ''.'' @ r \<and> CHR ''.'' \<notin> set r) \<and>
                    Path e \<in> set (ChildrenPaths m)))"
    if n: "n \<in> set (Properties doc)" and e: "e \<in> set (Properties doc)"
      and pe: "Path e = Path n @ ''[*]''" for n e
  proof (intro conjI impI ballI)
    from n props obtain n0 where n0: "n0 \<in> set properties" "n = withChildren properties n0"
      by auto
    with pe show "Path e \<notin> set (ChildrenPaths n)"
      by (simp add: element_not_listed)
    show "Path e \<in> set (ChildrenPaths m) \<longleftrightarrow>
        (\<exists>r. Path n = Path m @ ''.'' @ r \<and> CHR ''.'' \<notin> set r)"
      if "m \<in> set (Properties doc)" for m
      using e that pe by (rule listed)
    show "Path e \<notin> set (ChildrenPaths m)"
      if "CHR ''.'' \<notin> set (Path n)" "m \<in> set (Properties doc)" for m
    proof
      assume "Path e \<in> set (ChildrenPaths m)"
      with listed [OF e that(2) pe] obtain r where "Path n = Path m @ ''.'' @ r" by blast
      then have "CHR ''.'' \<in> set (Path n)" by simp
      with that(1) show False ..
    qed
    show "\<exists>m\<in>set (Properties doc).
        (\<exists>r. Path n = Path m @ ''.'' @ r \<and> CHR ''.'' \<notin> set r) \<and>
        Path e \<in> set (ChildrenPaths m)"
      if "dotlessNames ts \<and> CHR ''.'' \<in> set (Path n)"
    proof -
      from that n0 have "CHR ''.'' \<in> set (Path n0)" by simp
      with that dot_parent_exists [OF w _ n0(1)] obtain m0 r where
        m0: "m0 \<in> set properties" "Path n0 = Path m0 @ ''.'' @ r" "CHR ''.'' \<notin> set r"
        by blast
      let ?m = "withChildren properties m0"
      from m0(1) have in_doc: "?m \<in> set (Properties doc)" by (simp add: props)
      from m0(2,3) n0 have r: "\<exists>r. Path n = Path ?m @ ''.'' @ r \<and> CHR ''.'' \<notin> set r"
        by auto
      with listed [OF e in_doc pe] have "Path e \<in> set (ChildrenPaths ?m)" by blast
      with in_doc r show ?thesis by blast
    qed
  qed
  have keyval: "Path c \<in> set (ChildrenPaths n)"
    if n: "n \<in> set (Properties doc)" and c: "c \<in> set (Properties doc)"
      and pc: "Path c = Path n @ ''.~'' \<or> Path c = Path n @ ''.*''" for n c
  proof -
    from n props obtain n0 where n0: "n0 \<in> set properties" "n = withChildren properties n0"
      by auto
    from c props obtain c0 where c0: "c0 \<in> set properties" "c = withChildren properties c0"
      by auto
    from pc n0 c0 have "Path c0 = Path n0 @ ''.'' @ ''~'' \<or> Path c0 = Path n0 @ ''.'' @ ''*''"
      by simp
    then have "Path c0 \<in> set (findPropertyChildrenPaths (Path n0) properties)"
      using c0(1) by (auto intro!: child_listed)
    with n0 c0 show ?thesis by simp
  qed
  have a: "\<forall>n\<in>set (Properties doc). \<forall>e\<in>set (Properties doc).
            Path e = Path n @ ''[*]'' \<longrightarrow>
              Path e \<notin> set (ChildrenPaths n) \<and>
              (\<forall>m\<in>set (Properties doc).
                 Path e \<in> set (ChildrenPaths m) \<longleftrightarrow>
                   (\<exists>r. Path n = Path m @ ''.'' @ r \<and> CHR ''.'' \<notin> set r)) \<and>
              (CHR ''.'' \<notin> set (Path n) \<longrightarrow>
                 (\<forall>m\<in>set (Properties doc). Path e \<notin> set (ChildrenPaths m))) \<and>
              (dotlessNames ts \<and> CHR ''.'' \<in> set (Path n) \<longrightarrow>
                 (\<exists>m\<in>set (Properties doc).
                    (\<exists>r. Path n = Path m @ ''.'' @ r \<and> CHR ''.'' \<notin> set r) \<and>
                    Path e \<in> set (ChildrenPaths m)))"
    using elem by (intro ballI impI)
  have b: "\<forall>n\<in>set (Properties doc). \<forall>c\<in>set (Properties doc).
            Path c = Path n @ ''.~'' \<or> Path c = Path n @ ''.*'' \<longrightarrow>
              Path c \<in> set (ChildrenPaths n)"
    using keyval by (intro ballI impI)
  have c: "\<forall>t path properties result.
            Map ts t path properties = Some result \<longrightarrow>
              (Kind (ts (unwrapPtr ts t)) = KSlice \<longrightarrow>
                 (\<exists>n\<in>set result. Path n = path @ ''[*]'')) \<and>
              (Kind (ts (unwrapPtr ts t)) = KMap \<longrightarrow>
                 (\<exists>n\<in>set result. Path n = path @ ''.~'') \<and>
                 (\<exists>n\<in>set result. Path n = path @ ''.*''))"
    using Map_element_nodes by (intro allI impI)
  from a b c show ?thesis by (intro conjI)
qed

theorem children_of_sequences_and_mappings_witness:
  "\<exists>doc. generateObjectDoc containerTypes 0 = Some doc \<and>
     map (\<lambda>n. (Path n, ChildrenPaths n)) (Properties doc) =
       [(''$'', [''$.items'', ''$.items[*]'', ''$.data'']),
        (''$.items'', []),
        (''$.items[*]'', []),
        (''$.data'', [''$.data.~'', ''$.data.*'']),
        (''$.data.~'', []),
        (''$.data.*'', [])] \<and>
     ''$.items[*]'' \<notin> set (ChildrenPaths (Properties doc ! 1)) \<and>
     ''$.items[*]'' \<in> set (ChildrenPaths (Properties doc ! 0)) \<and>
     ''$.data.~'' \<in> set (ChildrenPaths (Properties doc ! 3)) \<and>
     ''$.data.*'' \<in> set (ChildrenPaths (Properties doc ! 3))"
proof -
  obtain properties where walk: "Map containerTypes 0 ''$'' [] = Some properties"
    and paths: "map Path properties =
      [''$'', ''$.items'', ''$.items[*]'', ''$.data'', ''$.data.~'', ''$.data.*'']"
    using Map_containerTypes by (cases "Map containerTypes 0 ''$'' []") auto
  define doc where "doc = \<lparr>ObjectName = '''', Properties = addChildrenPaths properties,
              Examples = [], ObjectDocText = ''''\<rparr>"
  have gen: "generateObjectDoc containerTypes 0 = Some doc"
    using walk
    by (simp add: generateObjectDoc_def Let_def doc_def containerTypes_simps example_defs)
  from paths obtain n0 n1 n2 n3 n4 n5 where
    ns: "properties = [n0, n1, n2, n3, n4, n5]"
      "Path n0 = ''$''" "Path n1 = ''$.items''" "Path n2 = ''$.items[*]''"
      "Path n3 = ''$.data''" "Path n4 = ''$.data.~''" "Path n5 = ''$.data.*''"
    by (auto simp: map_eq_Cons_conv)
  have table: "map (\<lambda>n. (Path n, ChildrenPaths n)) (Properties doc) =
      [(''$'', [''$.items'', ''$.items[*]'', ''$.data'']),
         (''$.items'', []),
         (''$.items[*]'', []),
         (''$.data'', [''$.data.~'', ''$.data.*'']),
         (''$.data.~'', []),
         (''$.data.*'', [])]"
    by (simp add: doc_def addChildrenPaths_map ns strings_CutPrefix_def)
  have len: "length (Properties doc) = 6"
    by (simp add: doc_def addChildrenPaths_map ns)
  have p: "Path (Properties doc ! 0) = ''$''" "Path (Properties doc ! 1) = ''$.items''"
    "Path (Properties doc ! 2) = ''$.items[*]''" "Path (Properties doc ! 3) = ''$.data''"
    "Path (Properties doc ! 4) = ''$.data.~''" "Path (Properties doc ! 5) = ''$.data.*''"
    by (simp_all add: doc_def addChildrenPaths_map ns)
  have mem: "Properties doc ! 0 \<in> set (Properties doc)" "Properties doc ! 1 \<in> set (Properties doc)"
    "Properties doc ! 2 \<in> set (Properties doc)" "Properties doc ! 3 \<in> set (Properties doc)"
    "Properties doc ! 4 \<in> set (Properties doc)" "Properties doc ! 5 \<in> set (Properties doc)"
    using len by (simp_all only: nth_mem) 
  note all = children_of_sequences_and_mappings [OF gen]
  have pe: "Path (Properties doc ! 2) = Path (Properties doc ! 1) @ ''[*]''"
    unfolding p by simp
  note items = mp [OF bspec [OF bspec [OF all [THEN conjunct1] mem(2)] mem(3)] pe]
  from items [THEN conjunct1]
  have not_own: "''$.items[*]'' \<notin> set (ChildrenPaths (Properties doc ! 1))"
    unfolding p .
  have "\<exists>r. Path (Properties doc ! 1) = Path (Properties doc ! 0) @ ''.'' @ r \<and> CHR ''.'' \<notin> set r"
    unfolding p by (intro exI [of _ "''items''"]) simp
  with bspec [OF items [THEN conjunct2, THEN conjunct1] mem(1)]
  have "Path (Properties doc ! 2) \<in> set (ChildrenPaths (Properties doc ! 0))" by (rule iffD2)
  then have root: "''$.items[*]'' \<in> set (ChildrenPaths (Properties doc ! 0))"
    unfolding p .
  note keyval = bspec [OF all [THEN conjunct2, THEN conjunct1] mem(4)]
  have "Path (Properties doc ! 4) = Path (Properties doc ! 3) @ ''.~'' \<or>
      Path (Properties doc ! 4) = Path (Properties doc ! 3) @ ''.*''"
    unfolding p by simp
  with bspec [OF keyval mem(5)]
  have "Path (Properties doc ! 4) \<in> set (ChildrenPaths (Properties doc ! 3))" by (rule mp)
  then have key: "''$.data.~'' \<in> set (ChildrenPaths (Properties doc ! 3))" unfolding p .
  have "Path (Properties doc ! 5) = Path (Properties doc ! 3) @ ''.~'' \<or>
      Path (Properties doc ! 5) = Path (Properties doc ! 3) @ ''.*''"
    unfolding p by simp
  with bspec [OF keyval mem(6)]
  have "Path (Properties doc ! 5) \<in> set (ChildrenPaths (Properties doc ! 3))" by (rule mp)
  then have val: "''$.data.*'' \<in> set (ChildrenPaths (Properties doc ! 3))" unfolding p .
  from gen table not_own root key val show ?thesis
    by (intro exI [of _ doc] conjI)
qed
end
